theory Spec2Isabelle
  imports Complex_Main "HOL-Library.Log_Nat"
begin

section \<open>Sentiment analysis by fine-tuning a word language model\<close>

text \<open>
  The notebook \<^verbatim>\<open>sentiment_analysis.ipynb\<close> builds a classifier on top of a pre-trained
  language model: text is tokenised and clipped, batches are padded, an encoder produces
  one feature vector per position, \<^verbatim>\<open>MeanPoolingLayer\<close> averages the features of the valid
  positions, and a dense layer yields one logit per example.

  Arrays are nested lists: an array of shape \<open>(T, N, C)\<close> is a list of \<open>T\<close> time steps, each
  a list of \<open>N\<close> examples, each a list of \<open>C\<close> channels. Array elements are real numbers.
  The first model of the layers computes on them exactly; where real arithmetic has no
  value but the float arithmetic of the arrays does (a division by zero), the float result
  is written out as a value of type \<open>fval\<close>. The rounding of float32 is the subject of the
  sections on float32 arithmetic, which give the pooling layer with every sum and quotient
  rounded.
\<close>

subsection \<open>Errors and float values\<close>

datatype error = MXNetError | ZeroDivisionError | ConfigError | DataError

datatype fval = Fin real | PInf | NInf | NaN

text \<open>Float division of two finite values: \<open>x / 0\<close> raises nothing, it is \<open>nan\<close> for
  \<open>x = 0\<close> and an infinity otherwise (the divisors of this program are lengths, so a zero
  divisor is \<open>+0\<close>).\<close>

definition fdiv :: "real \<Rightarrow> real \<Rightarrow> fval" where
  "fdiv x y =
     (if y \<noteq> 0 then Fin (x / y)
      else if x = 0 then NaN
      else if 0 < x then PInf else NInf)"

text \<open>Sum, product and quotient of float values: exact on finite values, and as the float
  arithmetic has them on \<open>nan\<close> and the infinities (\<open>nan\<close> absorbs, \<open>inf - inf\<close>, \<open>0 * inf\<close>
  and \<open>inf / inf\<close> are \<open>nan\<close>).\<close>

fun fadd :: "fval \<Rightarrow> fval \<Rightarrow> fval" where
  "fadd (Fin a) (Fin b) = Fin (a + b)"
| "fadd NaN _ = NaN"
| "fadd _ NaN = NaN"
| "fadd PInf NInf = NaN"
| "fadd NInf PInf = NaN"
| "fadd PInf _ = PInf"
| "fadd _ PInf = PInf"
| "fadd NInf _ = NInf"
| "fadd _ NInf = NInf"

fun fmul :: "fval \<Rightarrow> fval \<Rightarrow> fval" where
  "fmul (Fin a) (Fin b) = Fin (a * b)"
| "fmul NaN _ = NaN"
| "fmul _ NaN = NaN"
| "fmul (Fin a) PInf = (if 0 < a then PInf else if a < 0 then NInf else NaN)"
| "fmul (Fin a) NInf = (if 0 < a then NInf else if a < 0 then PInf else NaN)"
| "fmul PInf (Fin b) = (if 0 < b then PInf else if b < 0 then NInf else NaN)"
| "fmul NInf (Fin b) = (if 0 < b then NInf else if b < 0 then PInf else NaN)"
| "fmul PInf PInf = PInf"
| "fmul NInf NInf = PInf"
| "fmul PInf NInf = NInf"
| "fmul NInf PInf = NInf"

fun fdivide :: "fval \<Rightarrow> fval \<Rightarrow> fval" where
  "fdivide (Fin a) (Fin b) = fdiv a b"
| "fdivide NaN _ = NaN"
| "fdivide _ NaN = NaN"
| "fdivide (Fin a) PInf = Fin 0"
| "fdivide (Fin a) NInf = Fin 0"
| "fdivide PInf (Fin b) = (if 0 \<le> b then PInf else NInf)"
| "fdivide NInf (Fin b) = (if 0 \<le> b then NInf else PInf)"
| "fdivide PInf PInf = NaN"
| "fdivide PInf NInf = NaN"
| "fdivide NInf PInf = NaN"
| "fdivide NInf NInf = NaN"

text \<open>The comparison \<open>x > r\<close> with a finite number: false for \<open>nan\<close>.\<close>

fun fgt :: "fval \<Rightarrow> real \<Rightarrow> bool" where
  "fgt (Fin a) r = (r < a)"
| "fgt PInf r = True"
| "fgt NInf r = False"
| "fgt NaN r = False"

text \<open>The logistic function \<open>1 / (1 + exp (- x))\<close> of the method \<^verbatim>\<open>sigmoid()\<close>.\<close>

definition sigmoid :: "real \<Rightarrow> real" where
  "sigmoid x = 1 / (1 + exp (- x))"

fun fsigmoid :: "fval \<Rightarrow> fval" where
  "fsigmoid (Fin a) = Fin (sigmoid a)"
| "fsigmoid PInf = Fin 1"
| "fsigmoid NInf = Fin 0"
| "fsigmoid NaN = NaN"

subsection \<open>Array shapes\<close>

text \<open>The arrays of the framework have no axis of size zero.\<close>

definition has_shape :: "nat \<times> nat \<times> nat \<Rightarrow> 'a list list list \<Rightarrow> bool" where
  "has_shape s X =
     (case s of (T, N, C) \<Rightarrow>
        0 < T \<and> 0 < N \<and> 0 < C \<and> length X = T \<and>
        (\<forall>step \<in> set X. length step = N \<and> (\<forall>feat \<in> set step. length feat = C)))"

fun batch_axis :: "'a list list list \<Rightarrow> nat" where
  "batch_axis [] = 0"
| "batch_axis (step # _) = length step"

subsection \<open>Array operators used by the pooling layer\<close>

text \<open>Modelled from the spec: the operators \<^verbatim>\<open>SequenceMask\<close>, \<^verbatim>\<open>sum\<close>, \<^verbatim>\<open>expand_dims\<close> and
  \<^verbatim>\<open>broadcast_div\<close> belong to the array framework, whose code is not in the repository.
  \<^verbatim>\<open>SequenceMask(data, sequence_length, use_sequence_length=True)\<close> on data of shape
  \<open>(T, N, C)\<close> overwrites with the value \<open>0\<close> every position \<open>t\<close> of example \<open>j\<close> with
  \<open>t \<ge> sequence_length[j]\<close> and keeps the others, so that the positions beyond the valid
  length are excluded from a later sum whatever they hold.\<close>

definition SequenceMask :: "real list list list \<Rightarrow> nat list \<Rightarrow> real list list list" where
  "SequenceMask data sequence_length =
     map (\<lambda>(t, step).
            map (\<lambda>(j, feat). if t < sequence_length ! j then feat else map (\<lambda>_. 0) feat)
                (enumerate 0 step))
         (enumerate 0 data)"

text \<open>Modelled from the spec: \<^verbatim>\<open>sum(x, axis=0)\<close> of the array framework adds the \<open>T\<close>
  slices of shape \<open>(N, C)\<close> elementwise.\<close>

fun nd_sum_axis0 :: "real list list list \<Rightarrow> real list list" where
  "nd_sum_axis0 [] = []"
| "nd_sum_axis0 [X] = X"
| "nd_sum_axis0 (X # Xs) = map2 (map2 (+)) X (nd_sum_axis0 Xs)"

text \<open>Modelled from the spec: \<^verbatim>\<open>expand_dims(v, axis=1)\<close> turns shape \<open>(N)\<close> into \<open>(N, 1)\<close>.
  The valid lengths are counts of positions, held in a float32 array.\<close>

definition expand_dims :: "nat list \<Rightarrow> real list list" where
  "expand_dims v = map (\<lambda>n. [real n]) v"

text \<open>Modelled from the spec: \<^verbatim>\<open>broadcast_div\<close> of an \<open>(N, C)\<close> array by an \<open>(N, 1)\<close> array
  divides every channel of row \<open>j\<close> by the single element of row \<open>j\<close> of the divisor.\<close>

definition broadcast_div :: "real list list \<Rightarrow> real list list \<Rightarrow> fval list list" where
  "broadcast_div A B = map2 (\<lambda>row d. map (\<lambda>x. fdiv x (d ! 0)) row) A B"

subsection \<open>\<^verbatim>\<open>MeanPoolingLayer.hybrid_forward\<close>\<close>

text \<open>
  \<^verbatim>\<open>
  masked_encoded = F.SequenceMask(data, sequence_length=valid_length,
                                  use_sequence_length=True)
  agg_state = F.broadcast_div(F.sum(masked_encoded, axis=0),
                              F.expand_dims(valid_length, axis=1))
  return agg_state
  \<close>
  The framework refuses a \<^verbatim>\<open>valid_length\<close> whose size is not the batch size of the data.
\<close>

definition MeanPoolingLayer ::
  "real list list list \<Rightarrow> nat list \<Rightarrow> error + fval list list" where
  "MeanPoolingLayer data valid_length =
     (if length valid_length \<noteq> batch_axis data then Inl MXNetError
      else
        let masked_encoded = SequenceMask data valid_length;
            agg_state = broadcast_div (nd_sum_axis0 masked_encoded) (expand_dims valid_length)
        in Inr agg_state)"

subsection \<open>Preprocessing\<close>

text \<open>Modelled from the spec: the vocabulary of the pre-trained model is not in the repository.
  Looking up a list of tokens gives the list of their ids, and a token that is not in the
  vocabulary maps to the reserved id of the unknown token.\<close>

record vocab =
  token_to_idx :: "string \<rightharpoonup> nat"
  unknown_idx :: nat

definition vocab_getitem :: "vocab \<Rightarrow> string list \<Rightarrow> nat list" where
  "vocab_getitem v tokens =
     map (\<lambda>tok. case token_to_idx v tok of Some i \<Rightarrow> i | None \<Rightarrow> unknown_idx v) tokens"

text \<open>\<^verbatim>\<open>length_clip = nlp.data.ClipSequence(500)\<close>: "takes as input a list and outputs a list
  with maximum length 500".\<close>

definition length_clip :: "'a list \<Rightarrow> 'a list" where
  "length_clip xs = take 500 xs"

text \<open>
  \<^verbatim>\<open>
  def preprocess(x):
      data, label = x
      label = int(label > 5)
      data = vocab[length_clip(tokenizer(data))]
      return data, label
  \<close>
  The tokenizer is an external tool and a parameter here; a sample is a raw text with its
  integer rating.
\<close>

definition preprocess ::
  "(string \<Rightarrow> string list) \<Rightarrow> vocab \<Rightarrow> string \<times> int \<Rightarrow> nat list \<times> int" where
  "preprocess tokenizer vcb x =
     (case x of (data, label) \<Rightarrow>
        let label = (if label > 5 then 1 else 0);
            data = vocab_getitem vcb (length_clip (tokenizer data))
        in (data, label))"

text \<open>\<^verbatim>\<open>def get_length(x): return float(len(x[0]))\<close>\<close>

definition get_length :: "nat list \<times> int \<Rightarrow> real" where
  "get_length x = real (length (fst x))"

text \<open>
  \<^verbatim>\<open>
  dataset = gluon.data.SimpleDataset(pool.map(preprocess, dataset))
  lengths = gluon.data.SimpleDataset(pool.map(get_length, dataset))
  return dataset, lengths
  \<close>
  \<^verbatim>\<open>pool.map\<close> returns the results in the order of its input; the second call maps over the
  preprocessed dataset, which the first assignment has bound to the same name.
\<close>

definition preprocess_dataset ::
  "(string \<Rightarrow> string list) \<Rightarrow> vocab \<Rightarrow> (string \<times> int) list \<Rightarrow>
     (nat list \<times> int) list \<times> real list" where
  "preprocess_dataset tokenizer vcb dataset =
     (let dataset = map (preprocess tokenizer vcb) dataset;
          lengths = map get_length dataset
      in (dataset, lengths))"

subsection \<open>Batch assembly\<close>

text \<open>Modelled from the spec: \<^verbatim>\<open>nlp.data.batchify.Pad(axis=0, ret_length=True)\<close> is a library class
  whose code is not in the repository. It pads every sequence of the group to the group's
  maximum length with the pad id 0, keeps the order of the examples and also returns the
  original (pre-pad) lengths. The padded array has shape \<open>(batch_size, max_len)\<close>; the caller
  transposes it.\<close>

definition Pad :: "nat list list \<Rightarrow> nat list list \<times> nat list" where
  "Pad arrs =
     (let original_length = map length arrs;
          max_size = foldr max original_length 0
      in (map (\<lambda>a. a @ replicate (max_size - length a) 0) arrs, original_length))"

text \<open>Modelled from the spec: \<^verbatim>\<open>nlp.data.batchify.Stack(dtype='float32')\<close> stacks the labels into
  a float vector.\<close>

definition Stack :: "int list \<Rightarrow> real list" where
  "Stack labels = map real_of_int labels"

text \<open>
  \<^verbatim>\<open>
  batchify_fn = nlp.data.batchify.Tuple(
      nlp.data.batchify.Pad(axis=0, ret_length=True),
      nlp.data.batchify.Stack(dtype='float32'))
  \<close>
  \<^verbatim>\<open>Tuple\<close> applies its first function to the first components of the samples and its second
  function to the second components.
\<close>

type_synonym batch = "(nat list list \<times> nat list) \<times> real list"

definition batchify_fn :: "(nat list \<times> int) list \<Rightarrow> batch" where
  "batchify_fn samples = (Pad (map fst samples), Stack (map snd samples))"

subsection \<open>The network\<close>

text \<open>
  The embedding and the encoder come from the pre-trained language model and are parameters
  of the network, as are the weights of the output layer \<^verbatim>\<open>Dense(1, flatten=False)\<close>.
\<close>

record sentiment_net =
  embedding :: "nat list list \<Rightarrow> real list list list"
  encoder :: "real list list list \<Rightarrow> real list list list"
  dropout :: real
  weight :: "real list"
  bias :: real

text \<open>Modelled from the spec: \<^verbatim>\<open>gluon.nn.Dropout\<close> is the identity outside training (and the
  notebook sets the rate to 0); \<^verbatim>\<open>gluon.nn.Dense(1, flatten=False)\<close> maps every pooled vector
  of an \<open>(N, C)\<close> array to one logit by a single affine transform, giving shape \<open>(N, 1)\<close>.\<close>

definition Dropout :: "real \<Rightarrow> fval list list \<Rightarrow> fval list list" where
  "Dropout rate x = x"

definition Dense :: "real list \<Rightarrow> real \<Rightarrow> fval list list \<Rightarrow> fval list list" where
  "Dense w b x =
     map (\<lambda>row. [fadd (foldr fadd (map2 (\<lambda>wc xc. fmul (Fin wc) xc) w row) (Fin 0)) (Fin b)]) x"

text \<open>
  \<^verbatim>\<open>
  def hybrid_forward(self, F, data, valid_length):
      encoded = self.encoder(self.embedding(data))  # Shape(T, N, C)
      agg_state = self.agg_layer(encoded, valid_length)
      out = self.output(agg_state)
      return out
  \<close>
\<close>

definition SentimentNet ::
  "sentiment_net \<Rightarrow> nat list list \<Rightarrow> nat list \<Rightarrow> error + fval list list" where
  "SentimentNet net data valid_length =
     (let encoded = encoder net (embedding net data) in
      case MeanPoolingLayer encoded valid_length of
        Inl e \<Rightarrow> Inl e
      | Inr agg_state \<Rightarrow>
          let out = Dense (weight net) (bias net) (Dropout (dropout net) agg_state)
          in Inr out)"

subsection \<open>Single-sentence inference\<close>

text \<open>
  \<^verbatim>\<open>
  res=net(
      mx.nd.reshape(
          mx.nd.array(vocab[tokenizer(test_sentence)], ctx=context),
          shape=(-1, 1)), mx.nd.array([4], ctx=context)).sigmoid()
  \<close>
  The ids become an array of shape \<open>(T, 1)\<close>; the valid length passed to the network is the
  literal \<open>[4]\<close>.
\<close>

definition res ::
  "sentiment_net \<Rightarrow> (string \<Rightarrow> string list) \<Rightarrow> vocab \<Rightarrow> string \<Rightarrow> error + fval list list" where
  "res net tokenizer vcb test_sentence =
     (case SentimentNet net (map (\<lambda>i. [i]) (vocab_getitem vcb (tokenizer test_sentence))) [4] of
        Inl e \<Rightarrow> Inl e
      | Inr out \<Rightarrow> Inr (map (map fsigmoid) out))"

text \<open>The reading of the spec: the same pipeline with the number of tokens as the valid
  length of the single example.\<close>

definition predict_spec ::
  "sentiment_net \<Rightarrow> (string \<Rightarrow> string list) \<Rightarrow> vocab \<Rightarrow> string \<Rightarrow> error + fval list list" where
  "predict_spec net tokenizer vcb raw_text =
     (let ids = vocab_getitem vcb (tokenizer raw_text) in
      case SentimentNet net (map (\<lambda>i. [i]) ids) [length ids] of
        Inl e \<Rightarrow> Inl e
      | Inr out \<Rightarrow> Inr (map (map fsigmoid) out))"

subsection \<open>Evaluation\<close>

text \<open>
  \<^verbatim>\<open>
  for i, ((data, valid_length), label) in enumerate(dataloader):
      data = mx.nd.transpose(data.as_in_context(context))
      valid_length = valid_length.as_in_context(context).astype(np.float32)
      label = label.as_in_context(context)
      output = net(data, valid_length)
      L = loss(output, label)
      pred = (output > 0.5).reshape(-1)
      total_L += L.sum().asscalar()
      total_sample_num += label.shape[0]
      total_correct_num += (pred == label).sum().asscalar()
  avg_L = total_L / float(total_sample_num)
  acc = total_correct_num / float(total_sample_num)
  return avg_L, acc
  \<close>
  The network and the loss (\<^verbatim>\<open>gluon.loss.SigmoidBCELoss()\<close>, which takes the raw output of the
  network and one label per example) are parameters. A comparison of arrays gives an array
  of the numbers 1 and 0. An error of the network ends the evaluation. With no batch at all
  the two final divisions are Python divisions of a float by \<open>0.0\<close>, which raise; the loader
  yields no empty batch, so the count is 0 only then.
\<close>

type_synonym network = "nat list list \<Rightarrow> nat list \<Rightarrow> error + fval list list"

definition pred_of :: "fval list list \<Rightarrow> real list" where
  "pred_of output = concat (map (map (\<lambda>x. if fgt x 0.5 then 1 else 0)) output)"

definition correct_num :: "real list \<Rightarrow> real list \<Rightarrow> nat" where
  "correct_num pred label = length (filter (\<lambda>(p, l). p = l) (zip pred label))"

fun evaluate_loop ::
  "network \<Rightarrow> (fval list list \<Rightarrow> real list \<Rightarrow> fval list) \<Rightarrow> batch list \<Rightarrow>
     fval \<times> nat \<times> nat \<Rightarrow> error + fval \<times> nat \<times> nat" where
  "evaluate_loop net loss [] totals = Inr totals"
| "evaluate_loop net loss (((data, valid_length), label) # rest)
       (total_L, total_sample_num, total_correct_num) =
     (case net (transpose data) valid_length of
        Inl e \<Rightarrow> Inl e
      | Inr output \<Rightarrow>
          let L = loss output label;
              pred = pred_of output
          in evaluate_loop net loss rest
               (fadd total_L (foldr fadd L (Fin 0)),
                total_sample_num + length label,
                total_correct_num + correct_num pred label))"

definition evaluate ::
  "network \<Rightarrow> (fval list list \<Rightarrow> real list \<Rightarrow> fval list) \<Rightarrow> batch list \<Rightarrow>
     error + fval \<times> real" where
  "evaluate net loss dataloader =
     (case evaluate_loop net loss dataloader (Fin 0, 0, 0) of
        Inl e \<Rightarrow> Inl e
      | Inr (total_L, total_sample_num, total_correct_num) \<Rightarrow>
          if total_sample_num = 0 then Inl ZeroDivisionError
          else
            let avg_L = fdivide total_L (Fin (real total_sample_num));
                acc = real total_correct_num / real total_sample_num
            in Inr (avg_L, acc))"

subsection \<open>The length-bucketed sampler\<close>

text \<open>Modelled from the spec: \<^verbatim>\<open>nlp.data.sampler.FixedBucketSampler\<close> is a library class whose
  code is not in the repository; the notebook only constructs it. Section 4.1 of the spec
  gives its algorithm, which the definitions below follow step by step:
  \<^enum> the bucket keys are \<open>num_buckets\<close> ascending length thresholds, by any deterministic
    scheme (a parameter here, a function of the lengths and the number of buckets);
  \<^enum> an example belongs to the smallest bucket whose key is at least its length, and to the
    last bucket when its length exceeds the largest key;
  \<^enum> the batch size of a bucket is
    \<open>max 1 (round (batch_size * (max_key / bucket_key) ** ratio))\<close>;
  \<^enum> within each bucket the member indices are shuffled if \<open>shuffle\<close> is set, and cut into
    consecutive chunks of the bucket's batch size, the last of which may be short;
  \<^enum> if \<open>shuffle\<close> is set the list of batches is shuffled.

  \<open>num_buckets < 1\<close> or \<open>batch_size < 1\<close> is a configuration error. The process-wide random
  state is passed in and returned; the two shuffles are parameters that take it and return
  the next state.\<close>

definition bucket_of :: "nat list \<Rightarrow> nat \<Rightarrow> nat" where
  "bucket_of keys len =
     (case find (\<lambda>b. len \<le> keys ! b) [0..<length keys] of
        Some b \<Rightarrow> b
      | None \<Rightarrow> length keys - 1)"

definition bucket_batch_size :: "nat \<Rightarrow> real \<Rightarrow> nat \<Rightarrow> nat \<Rightarrow> nat" where
  "bucket_batch_size batch_size ratio max_key bucket_key =
     max 1 (nat (round (real batch_size * (real max_key / real bucket_key) powr ratio)))"

function chunks :: "nat \<Rightarrow> 'a list \<Rightarrow> 'a list list" where
  "chunks n xs = (if n = 0 \<or> xs = [] then [] else take n xs # chunks n (drop n xs))"
  by pat_completeness auto
termination
  by (relation "measure (\<lambda>(n, xs). length xs)") auto

declare chunks.simps [simp del]

fun shuffle_members ::
  "('g \<Rightarrow> nat list \<Rightarrow> nat list \<times> 'g) \<Rightarrow> nat list list \<Rightarrow> 'g \<Rightarrow> nat list list \<times> 'g" where
  "shuffle_members shuf [] g = ([], g)"
| "shuffle_members shuf (m # ms) g =
     (case shuf g m of (m', g') \<Rightarrow>
        case shuffle_members shuf ms g' of (ms', g'') \<Rightarrow> (m' # ms', g''))"

definition FixedBucketSampler ::
  "(nat list \<Rightarrow> nat \<Rightarrow> nat list) \<Rightarrow>
   ('g \<Rightarrow> nat list \<Rightarrow> nat list \<times> 'g) \<Rightarrow> ('g \<Rightarrow> nat list list \<Rightarrow> nat list list \<times> 'g) \<Rightarrow>
   nat list \<Rightarrow> nat \<Rightarrow> nat \<Rightarrow> real \<Rightarrow> bool \<Rightarrow> 'g \<Rightarrow> error + nat list list \<times> 'g" where
  "FixedBucketSampler bucket_scheme shuffle_ids shuffle_batches
       lengths batch_size num_buckets ratio shuffle g =
     (if num_buckets < 1 \<or> batch_size < 1 then Inl ConfigError
      else
        let keys = bucket_scheme lengths num_buckets;
            max_key = foldr max keys 0;
            members = map (\<lambda>b. filter (\<lambda>i. bucket_of keys (lengths ! i) = b)
                                  [0..<length lengths])
                          [0..<length keys];
            sizes = map (bucket_batch_size batch_size ratio max_key) keys;
            (members', g') = (if shuffle then shuffle_members shuffle_ids members g
                              else (members, g));
            batches = concat (map2 chunks sizes members');
            (batches', g'') = (if shuffle then shuffle_batches g' batches else (batches, g'))
        in Inr (batches', g''))"

text \<open>Iterating the sampler twice, as two epochs do: the second run starts from the random
  state that the first has left.\<close>

definition sample_twice ::
  "(nat list \<Rightarrow> nat \<Rightarrow> nat list) \<Rightarrow>
   ('g \<Rightarrow> nat list \<Rightarrow> nat list \<times> 'g) \<Rightarrow> ('g \<Rightarrow> nat list list \<Rightarrow> nat list list \<times> 'g) \<Rightarrow>
   nat list \<Rightarrow> nat \<Rightarrow> nat \<Rightarrow> real \<Rightarrow> bool \<Rightarrow> 'g \<Rightarrow> error + nat list list \<times> nat list list" where
  "sample_twice bucket_scheme shuffle_ids shuffle_batches
       lengths batch_size num_buckets ratio shuffle g =
     (case FixedBucketSampler bucket_scheme shuffle_ids shuffle_batches
             lengths batch_size num_buckets ratio shuffle g of
        Inl e \<Rightarrow> Inl e
      | Inr (first, g') \<Rightarrow>
          (case FixedBucketSampler bucket_scheme shuffle_ids shuffle_batches
                  lengths batch_size num_buckets ratio shuffle g' of
             Inl e \<Rightarrow> Inl e
           | Inr (second, g'') \<Rightarrow> Inr (first, second)))"

subsection \<open>The data loaders\<close>

text \<open>Modelled from the spec: the sampler's contract takes a sequence of positive lengths
  (section 4.1), and an example of length zero is a data error that the sampler rejects
  before any batch is produced (sections 7 and 8, scenario 2). The library class fails in its
  constructor on such a length; \<open>FixedBucketSampler_init\<close> is the construction with that
  check in front of the algorithm above.\<close>

definition FixedBucketSampler_init ::
  "(nat list \<Rightarrow> nat \<Rightarrow> nat list) \<Rightarrow>
   ('g \<Rightarrow> nat list \<Rightarrow> nat list \<times> 'g) \<Rightarrow> ('g \<Rightarrow> nat list list \<Rightarrow> nat list list \<times> 'g) \<Rightarrow>
   nat list \<Rightarrow> nat \<Rightarrow> nat \<Rightarrow> real \<Rightarrow> bool \<Rightarrow> 'g \<Rightarrow> error + nat list list \<times> 'g" where
  "FixedBucketSampler_init bucket_scheme shuffle_ids shuffle_batches
       lengths batch_size num_buckets ratio shuffle g =
     (if 0 \<in> set lengths then Inl DataError
      else FixedBucketSampler bucket_scheme shuffle_ids shuffle_batches
             lengths batch_size num_buckets ratio shuffle g)"

text \<open>Modelled from the spec: \<^verbatim>\<open>gluon.data.DataLoader\<close> is a class of the framework. With a batch
  sampler it assembles one batch per index group of the sampler; with a batch size and
  \<^verbatim>\<open>shuffle=False\<close> it assembles the dataset in sequential order in consecutive groups of
  the batch size, the last of which may be short.\<close>

definition DataLoader_sampler ::
  "(nat list \<times> int) list \<Rightarrow> nat list list \<Rightarrow> batch list" where
  "DataLoader_sampler dataset batch_sampler =
     map (\<lambda>idx. batchify_fn (map (\<lambda>i. dataset ! i) idx)) batch_sampler"

definition DataLoader_sequential ::
  "(nat list \<times> int) list \<Rightarrow> nat \<Rightarrow> batch list" where
  "DataLoader_sequential dataset batch_size = map batchify_fn (chunks batch_size dataset)"

text \<open>
  \<^verbatim>\<open>
  def get_dataloader():
      batchify_fn = nlp.data.batchify.Tuple(...)
      batch_sampler = nlp.data.sampler.FixedBucketSampler(
          train_data_lengths,
          batch_size=batch_size,
          num_buckets=bucket_num,
          ratio=bucket_ratio,
          shuffle=True)
      print(batch_sampler.stats())
      train_dataloader = gluon.data.DataLoader(
          dataset=train_dataset,
          batch_sampler=batch_sampler,
          batchify_fn=batchify_fn)
      test_dataloader = gluon.data.DataLoader(
          dataset=test_dataset,
          batch_size=batch_size,
          shuffle=False,
          batchify_fn=batchify_fn)
      return train_dataloader, test_dataloader
  \<close>
  The globals that the function reads are arguments. The lengths are the floats of
  \<^verbatim>\<open>get_length\<close>, which hold token counts. An error of the sampler's construction leaves
  the function before either loader exists. The test dataset does not pass through the
  sampler.
\<close>

definition get_dataloader ::
  "(nat list \<Rightarrow> nat \<Rightarrow> nat list) \<Rightarrow>
   ('g \<Rightarrow> nat list \<Rightarrow> nat list \<times> 'g) \<Rightarrow> ('g \<Rightarrow> nat list list \<Rightarrow> nat list list \<times> 'g) \<Rightarrow>
   (nat list \<times> int) list \<Rightarrow> real list \<Rightarrow> (nat list \<times> int) list \<Rightarrow>
   nat \<Rightarrow> nat \<Rightarrow> real \<Rightarrow> 'g \<Rightarrow> error + (batch list \<times> batch list) \<times> 'g" where
  "get_dataloader bucket_scheme shuffle_ids shuffle_batches
       train_dataset train_data_lengths test_dataset batch_size bucket_num bucket_ratio g =
     (case FixedBucketSampler_init bucket_scheme shuffle_ids shuffle_batches
             (map (\<lambda>l. nat \<lfloor>l\<rfloor>) train_data_lengths) batch_size bucket_num bucket_ratio True g of
        Inl e \<Rightarrow> Inl e
      | Inr (batch_sampler, g') \<Rightarrow>
          let train_dataloader = DataLoader_sampler train_dataset batch_sampler;
              test_dataloader = DataLoader_sequential test_dataset batch_size
          in Inr ((train_dataloader, test_dataloader), g'))"

subsection \<open>Float32 arithmetic\<close>

text \<open>
  The arrays of the network hold float32 numbers. \<open>fl32 x\<close> is the binary32 number that a
  real result \<open>x\<close> is rounded to: the nearest multiple of the unit in the last place of
  \<open>x\<close> (24 significant bits, and the spacing \<open>2 powi (- 149)\<close> below the smallest normal
  number \<open>2 powi (- 126)\<close>), the even one of two nearest, and an infinity when the rounded
  value reaches \<open>2 powi 128\<close>. \<open>expo x\<close> is the exponent \<open>\<lfloor>log 2 \<bar>x\<bar>\<rfloor>\<close> of a number other than
  zero, computed on integers. The sum, product and quotient of two finite float32 numbers
  are the rounded exact results.
\<close>

definition rne :: "real \<Rightarrow> int" where
  "rne x =
     (let f = \<lfloor>x\<rfloor>; d = x - of_int f
      in if d < 1 / 2 then f
         else if 1 / 2 < d then f + 1
         else if even f then f else f + 1)"

definition expo :: "real \<Rightarrow> int" where
  "expo x =
     (let a = \<bar>x\<bar>
      in if 1 \<le> a then bitlen \<lfloor>a\<rfloor> - 1 else - bitlen (\<lceil>1 / a\<rceil> - 1))"

definition fl32 :: "real \<Rightarrow> fval" where
  "fl32 x =
     (if x = 0 then Fin 0
      else
        let e = max (expo x) (- 126);
            ulp = 2 powi (e - 23);
            r = of_int (rne (x / ulp)) * ulp
        in if 2 powi 128 \<le> \<bar>r\<bar> then (if 0 < x then PInf else NInf) else Fin r)"

fun fadd32 :: "fval \<Rightarrow> fval \<Rightarrow> fval" where
  "fadd32 (Fin a) (Fin b) = fl32 (a + b)"
| "fadd32 a b = fadd a b"

fun fmul32 :: "fval \<Rightarrow> fval \<Rightarrow> fval" where
  "fmul32 (Fin a) (Fin b) = fl32 (a * b)"
| "fmul32 a b = fmul a b"

fun fdiv32 :: "fval \<Rightarrow> fval \<Rightarrow> fval" where
  "fdiv32 (Fin a) (Fin b) = (if b = 0 then fdiv a b else fl32 (a / b))"
| "fdiv32 a b = fdivide a b"

subsection \<open>The pooling layer in float32\<close>

text \<open>
  \<^verbatim>\<open>MeanPoolingLayer.hybrid_forward\<close> once more, with the arithmetic of the float32 arrays:
  every sum and every quotient is rounded. The operators are those of the section on the
  pooling layer (and, like them, modelled from the spec: the framework's code is not in the
  repository). The sum over the sequence axis accumulates the slices in the order of the
  positions; the framework fixes no order, and the sums of the counterexample to claim C6
  are exact in any order. \<open>nd_f32\<close> embeds an array of binary32 numbers, and \<open>nd_scale_f32\<close>
  is the product \<^verbatim>\<open>c * X\<close> of an array with a scalar.
\<close>

definition nd_f32 :: "real list list list \<Rightarrow> fval list list list" where
  "nd_f32 X = map (map (map Fin)) X"

definition SequenceMask_f32 :: "fval list list list \<Rightarrow> nat list \<Rightarrow> fval list list list" where
  "SequenceMask_f32 data sequence_length =
     map (\<lambda>(t, step).
            map (\<lambda>(j, feat). if t < sequence_length ! j then feat else map (\<lambda>_. Fin 0) feat)
                (enumerate 0 step))
         (enumerate 0 data)"

fun nd_sum_axis0_f32 :: "fval list list list \<Rightarrow> fval list list" where
  "nd_sum_axis0_f32 [] = []"
| "nd_sum_axis0_f32 (X # Xs) = foldl (map2 (map2 fadd32)) X Xs"

definition broadcast_div_f32 :: "fval list list \<Rightarrow> real list list \<Rightarrow> fval list list" where
  "broadcast_div_f32 A B = map2 (\<lambda>row d. map (\<lambda>x. fdiv32 x (Fin (d ! 0))) row) A B"

definition MeanPoolingLayer_f32 ::
  "fval list list list \<Rightarrow> nat list \<Rightarrow> error + fval list list" where
  "MeanPoolingLayer_f32 data valid_length =
     (if length valid_length \<noteq> batch_axis data then Inl MXNetError
      else
        let masked_encoded = SequenceMask_f32 data valid_length;
            agg_state = broadcast_div_f32 (nd_sum_axis0_f32 masked_encoded)
                          (expand_dims valid_length)
        in Inr agg_state)"

definition nd_scale_f32 :: "real \<Rightarrow> fval list list list \<Rightarrow> fval list list list" where
  "nd_scale_f32 c X = map (map (map (fmul32 (Fin c)))) X"

text \<open>
  Scaling by a power of two and rounding commute as long as nothing overflows or
  underflows. \<open>scale_ok k z\<close> says so of one exact result \<open>z\<close> that is rounded: \<open>z\<close> and
  \<open>2 powi k * z\<close> are zero or at least the smallest normal number, and the rounded \<open>z\<close> is
  finite and stays below \<open>2 powi 128\<close> when scaled. \<open>pool_ok k col n\<close> says it of every
  rounding in the pooling of one channel of one example, whose masked features are the
  binary32 numbers \<open>col\<close> and whose valid length is \<open>n\<close>: of the features, of every partial
  sum and of the quotient.
\<close>

definition scale_ok :: "int \<Rightarrow> real \<Rightarrow> bool" where
  "scale_ok k z =
     ((z = 0 \<or> (- 126 \<le> expo z \<and> - 126 \<le> expo z + k)) \<and>
      (case fl32 z of Fin r \<Rightarrow> \<bar>2 powi k * r\<bar> < 2 powi 128 | _ \<Rightarrow> False))"

fun sum_ok :: "int \<Rightarrow> real \<Rightarrow> real list \<Rightarrow> bool" where
  "sum_ok k a [] = True"
| "sum_ok k a (x # xs) =
     (scale_ok k (a + x) \<and>
      (case fl32 (a + x) of Fin r \<Rightarrow> sum_ok k r xs | _ \<Rightarrow> False))"

definition pool_ok :: "int \<Rightarrow> real list \<Rightarrow> nat \<Rightarrow> bool" where
  "pool_ok k col n =
     (case col of
        [] \<Rightarrow> False
      | x # xs \<Rightarrow>
          list_all (\<lambda>y. fl32 y = Fin y \<and> scale_ok k y) col \<and>
          sum_ok k x xs \<and>
          (case foldl fadd32 (Fin x) (map Fin xs) of
             Fin s \<Rightarrow> scale_ok k (s / real n) \<and>
               (case fl32 (s / real n) of Fin q \<Rightarrow> scale_ok k q | _ \<Rightarrow> False)
           | _ \<Rightarrow> False))"

section \<open>Properties of the pooling layer\<close>

lemma has_shape_nth:
  assumes "has_shape (T, N, C) X" "t < T"
  shows "length (X ! t) = N"
  using assms by (auto simp: has_shape_def)

lemma has_shape_nth_nth:
  assumes "has_shape (T, N, C) X" "t < T" "j < N"
  shows "length (X ! t ! j) = C"
proof -
  have "X ! t \<in> set X" using assms by (auto simp: has_shape_def)
  moreover have "X ! t ! j \<in> set (X ! t)"
    using assms has_shape_nth[OF assms(1,2)] by simp
  ultimately show ?thesis
    using assms(1) by (auto simp: has_shape_def)
qed

lemma has_shape_batch_axis: "has_shape (T, N, C) X \<Longrightarrow> batch_axis X = N"
  by (cases X) (auto simp: has_shape_def)

lemma SequenceMask_length [simp]: "length (SequenceMask X vl) = length X"
  by (simp add: SequenceMask_def)

lemma SequenceMask_nth_length:
  "t < length X \<Longrightarrow> length (SequenceMask X vl ! t) = length (X ! t)"
  by (simp add: SequenceMask_def nth_enumerate_eq)

lemma SequenceMask_nth:
  assumes "t < length X" "j < length (X ! t)"
  shows "SequenceMask X vl ! t ! j =
           (if t < vl ! j then X ! t ! j else map (\<lambda>_. 0) (X ! t ! j))"
  using assms by (simp add: SequenceMask_def nth_enumerate_eq)

lemma SequenceMask_shape:
  assumes "has_shape (T, N, C) X"
  shows "has_shape (T, N, C) (SequenceMask X vl)"
proof -
  have len: "length X = T" and pos: "0 < T" "0 < N" "0 < C"
    using assms by (auto simp: has_shape_def)
  have "length step = N \<and> (\<forall>feat \<in> set step. length feat = C)"
    if "step \<in> set (SequenceMask X vl)" for step
  proof -
    from that obtain t where t: "t < T" and step: "step = SequenceMask X vl ! t"
      using len by (auto simp: in_set_conv_nth)
    have n: "length step = N"
      using t len step SequenceMask_nth_length has_shape_nth[OF assms t] by simp
    have "length feat = C" if "feat \<in> set step" for feat
    proof -
      from that n obtain j where j: "j < N" and feat: "feat = step ! j"
        by (auto simp: in_set_conv_nth)
      have "j < length (X ! t)"
        using j has_shape_nth[OF assms t] by simp
      then have "step ! j = (if t < vl ! j then X ! t ! j else map (\<lambda>_. 0) (X ! t ! j))"
        unfolding step using t len by (simp add: SequenceMask_nth)
      then show ?thesis
        using feat has_shape_nth_nth[OF assms t j] by simp
    qed
    with n show ?thesis by blast
  qed
  with len pos show ?thesis
    by (simp add: has_shape_def)
qed

lemma SequenceMask_elem:
  assumes "has_shape (T, N, C) X" "t < T" "j < N" "c < C"
  shows "SequenceMask X vl ! t ! j ! c = (if t < vl ! j then X ! t ! j ! c else 0)"
proof -
  have "t < length X" "j < length (X ! t)" "c < length (X ! t ! j)"
    using assms has_shape_nth[OF assms(1,2)] has_shape_nth_nth[OF assms(1,2,3)]
    by (auto simp: has_shape_def)
  then show ?thesis
    by (simp add: SequenceMask_nth)
qed

lemma nd_sum_axis0_rect:
  assumes "X \<noteq> []"
    and "\<forall>step \<in> set X. length step = N \<and> (\<forall>feat \<in> set step. length feat = C)"
  shows "length (nd_sum_axis0 X) = N \<and>
         (\<forall>j<N. length (nd_sum_axis0 X ! j) = C \<and>
                 (\<forall>c<C. nd_sum_axis0 X ! j ! c = (\<Sum>t<length X. X ! t ! j ! c)))"
  using assms
proof (induction X rule: nd_sum_axis0.induct)
  case 1
  then show ?case by simp
next
  case (2 X)
  then show ?case by simp
next
  case (3 X Y Ys)
  let ?R = "nd_sum_axis0 (Y # Ys)"
  have IH: "length ?R = N"
    "\<And>j. j < N \<Longrightarrow> length (?R ! j) = C"
    "\<And>j c. j < N \<Longrightarrow> c < C \<Longrightarrow> ?R ! j ! c = (\<Sum>t<length (Y # Ys). (Y # Ys) ! t ! j ! c)"
    using 3 by auto
  have X: "length X = N" "\<And>j. j < N \<Longrightarrow> length (X ! j) = C"
    using "3.prems" by auto
  have "nd_sum_axis0 (X # Y # Ys) = map2 (map2 (+)) X ?R"
    by simp
  moreover have "length (map2 (map2 (+)) X ?R) = N"
    using X IH by simp
  moreover have "length (map2 (map2 (+)) X ?R ! j) = C" if "j < N" for j
    using that X IH by simp
  moreover have "map2 (map2 (+)) X ?R ! j ! c = (\<Sum>t<length (X # Y # Ys). (X # Y # Ys) ! t ! j ! c)"
    if "j < N" "c < C" for j c
  proof -
    have "map2 (map2 (+)) X ?R ! j ! c = X ! j ! c + ?R ! j ! c"
      using that X IH by simp
    also have "\<dots> = X ! j ! c + (\<Sum>t<length (Y # Ys). (Y # Ys) ! t ! j ! c)"
      using that IH by simp
    also have "\<dots> = (\<Sum>t<length (X # Y # Ys). (X # Y # Ys) ! t ! j ! c)"
      by (simp add: sum.lessThan_Suc_shift del: sum.lessThan_Suc)
    finally show ?thesis .
  qed
  ultimately show ?case by presburger
qed

lemma masked_sum:
  fixes f :: "nat \<Rightarrow> real"
  shows "(\<Sum>t<T. if t < n then f t else 0) = (\<Sum>t<min n T. f t)"
proof -
  have "(\<Sum>t<T. if t < n then f t else 0) = (\<Sum>t \<in> {..<T} \<inter> {t. t < n}. f t)"
    by (simp add: sum.inter_restrict)
  also have "{..<T} \<inter> {t. t < n} = {..<min n T}"
    by auto
  finally show ?thesis .
qed

lemma MeanPoolingLayer_value:
  assumes "has_shape (T, N, C) F" "length vl = N"
  shows "\<exists>P. MeanPoolingLayer F vl = Inr P \<and> length P = N \<and>
           (\<forall>j<N. length (P ! j) = C \<and>
              (\<forall>c<C. P ! j ! c = fdiv (\<Sum>t<min (vl ! j) T. F ! t ! j ! c) (real (vl ! j))))"
proof -
  let ?M = "SequenceMask F vl"
  let ?S = "nd_sum_axis0 ?M"
  let ?P = "broadcast_div ?S (expand_dims vl)"
  have M: "has_shape (T, N, C) ?M"
    using assms(1) by (rule SequenceMask_shape)
  then have "?M \<noteq> []"
    and "\<forall>step \<in> set ?M. length step = N \<and> (\<forall>feat \<in> set step. length feat = C)"
    and lenM: "length ?M = T"
    unfolding has_shape_def by (force, simp, simp)
  from nd_sum_axis0_rect[OF this(1,2)]
  have S: "length ?S = N" "\<And>j. j < N \<Longrightarrow> length (?S ! j) = C"
    "\<And>j c. j < N \<Longrightarrow> c < C \<Longrightarrow> ?S ! j ! c = (\<Sum>t<T. ?M ! t ! j ! c)"
    using lenM by auto
  have sum: "?S ! j ! c = (\<Sum>t<min (vl ! j) T. F ! t ! j ! c)" if "j < N" "c < C" for j c
  proof -
    have "?S ! j ! c = (\<Sum>t<T. if t < vl ! j then F ! t ! j ! c else 0)"
      using S(3)[OF that] SequenceMask_elem[OF assms(1) _ that] by simp
    then show ?thesis
      by (simp add: masked_sum)
  qed
  have "MeanPoolingLayer F vl = Inr ?P"
    using assms has_shape_batch_axis[OF assms(1)] by (simp add: MeanPoolingLayer_def)
  moreover have "length ?P = N"
    using S(1) assms(2) by (simp add: broadcast_div_def expand_dims_def)
  moreover have "length (?P ! j) = C" if "j < N" for j
    using that S(1,2) assms(2) by (simp add: broadcast_div_def expand_dims_def)
  moreover have "?P ! j ! c = fdiv (\<Sum>t<min (vl ! j) T. F ! t ! j ! c) (real (vl ! j))"
    if "j < N" "c < C" for j c
    using that S(1,2) sum assms(2) by (simp add: broadcast_div_def expand_dims_def)
  ultimately show ?thesis by blast
qed




section \<open>Properties of preprocessing\<close>

text \<open>
  Claim C5. For every dataset pair of a raw text and an integer rating, the label that
  \<^verbatim>\<open>preprocess\<close> assigns is 1 if the rating is strictly greater than 5, and 0 otherwise.
\<close>

theorem C5_binary_label:
  "snd (preprocess tokenizer vcb (text, rating)) = (if rating > 5 then 1 else 0)"
  by (simp add: preprocess_def Let_def)

text \<open>
  Claim C10. After \<^verbatim>\<open>preprocess_dataset\<close> the lengths are index-aligned with the preprocessed
  examples: both collections have one entry per input pair, in the order of the input, and
  the \<open>i\<close>-th length is the number of tokens of the \<open>i\<close>-th preprocessed example, as a float.
\<close>

theorem C10_lengths_aligned:
  assumes "preprocess_dataset tokenizer vcb dataset = (ds, lengths)"
  shows "length ds = length dataset \<and> length lengths = length ds \<and>
         (\<forall>i<length ds.
            ds ! i = preprocess tokenizer vcb (dataset ! i) \<and>
            lengths ! i = real (length (fst (ds ! i))) \<and>
            lengths ! i = get_length (ds ! i))"
  using assms by (auto simp: preprocess_dataset_def Let_def get_length_def)

theorem C10_lengths_aligned_witness:
  "preprocess_dataset (map (\<lambda>c. [c])) \<lparr>token_to_idx = [''a'' \<mapsto> 1, ''b'' \<mapsto> 2], unknown_idx = 0\<rparr>
     [(''ab'', 8), ('''', 3), (''abz'', 5)]
     = ([([1, 2], 1), ([], 0), ([1, 2, 0], 0)], [2, 0, 3]) \<and>
   [2, 0, 3 :: real] ! 2 = real (length (fst ([([1, 2], 1), ([], 0), ([1, 2, 0 :: nat], 0 :: int)] ! 2)))"
proof -
  let ?tk = "map (\<lambda>c. [c]) :: string \<Rightarrow> string list"
  let ?v = "\<lparr>token_to_idx = [''a'' \<mapsto> 1, ''b'' \<mapsto> 2], unknown_idx = 0\<rparr>"
  let ?D = "[(''ab'', 8), ('''', 3), (''abz'', 5 :: int)]"
  let ?ds = "[([1, 2], 1), ([], 0), ([1, 2, 0 :: nat], 0 :: int)]"
  let ?ls = "[2, 0, 3 :: real]"
  have run: "preprocess_dataset ?tk ?v ?D = (?ds, ?ls)"
    by (simp add: preprocess_dataset_def preprocess_def get_length_def vocab_getitem_def
        length_clip_def)
  from C10_lengths_aligned[OF run]
  have "\<forall>i<length ?ds. ?ls ! i = real (length (fst (?ds ! i)))"
    by (elim conjE) blast
  then have "?ls ! 2 = real (length (fst (?ds ! 2)))"
    by (elim allE[of _ 2]) simp
  with run show ?thesis by (intro conjI)
qed

section \<open>Properties of batch assembly\<close>

lemma foldr_max_upper: "x \<in> set xs \<Longrightarrow> x \<le> foldr max xs (0::nat)"
  by (induction xs) auto

lemma foldr_max_Max: "xs \<noteq> [] \<Longrightarrow> foldr max xs (0::nat) = Max (set xs)"
proof (induction xs)
  case Nil
  then show ?case by simp
next
  case (Cons x xs)
  show ?case
  proof (cases "xs = []")
    case True
    then show ?thesis by simp
  next
    case False
    with Cons show ?thesis by simp
  qed
qed

lemma foldr_max_mem: "xs \<noteq> [] \<Longrightarrow> foldr max xs (0::nat) \<in> set xs"
  using foldr_max_Max[of xs] Max_in[of "set xs"] by simp

lemma Pad_rows:
  assumes "Pad arrs = (padded, vl)"
  shows "vl = map length arrs"
    and "length padded = length arrs"
    and "\<forall>row \<in> set padded. length row = foldr max vl 0"
    and "\<forall>j<length arrs. take (vl ! j) (padded ! j) = arrs ! j \<and>
           drop (vl ! j) (padded ! j) = replicate (foldr max vl 0 - vl ! j) 0"
proof -
  show vl: "vl = map length arrs"
    using assms by (auto simp: Pad_def Let_def)
  have p: "padded = map (\<lambda>a. a @ replicate (foldr max vl 0 - length a) 0) arrs"
    using assms vl by (auto simp: Pad_def Let_def)
  then show "length padded = length arrs" by simp
  have "length a \<le> foldr max vl 0" if "a \<in> set arrs" for a
    using that vl foldr_max_upper[of "length a" vl] by simp
  then show "\<forall>row \<in> set padded. length row = foldr max vl 0"
    unfolding p by auto
  show "\<forall>j<length arrs. take (vl ! j) (padded ! j) = arrs ! j \<and>
           drop (vl ! j) (padded ! j) = replicate (foldr max vl 0 - vl ! j) 0"
    unfolding p vl by simp
qed

lemma length_transpose_rect:
  assumes "xs \<noteq> []" "\<forall>row \<in> set xs. length row = m"
  shows "length (transpose xs) = m"
proof -
  have "foldr (\<lambda>xs. max (length xs)) xs 0 = m"
    using assms
  proof (induction xs)
    case Nil
    then show ?case by simp
  next
    case (Cons x xs)
    then show ?case by (cases "xs = []") auto
  qed
  then show ?thesis by (simp add: length_transpose)
qed

lemma sum_list_bounded:
  fixes xs :: "nat list"
  assumes "\<forall>x \<in> set xs. x \<le> m"
  shows "sum_list xs \<le> m * length xs"
    and "sum_list xs = m * length xs \<longleftrightarrow> (\<forall>x \<in> set xs. x = m)"
  using assms
proof (induction xs)
  case Nil
  { case 1 show ?case by simp }
  { case 2 show ?case by simp }
next
  case (Cons x xs)
  { case 1
    then show ?case using Cons.IH(1) by auto }
  { case 2
    then have x: "x \<le> m" and le: "sum_list xs \<le> m * length xs"
      and iff: "sum_list xs = m * length xs \<longleftrightarrow> (\<forall>x \<in> set xs. x = m)"
      using Cons.IH by auto
    show ?case
    proof
      assume "sum_list (x # xs) = m * length (x # xs)"
      then have "x + sum_list xs = m + m * length xs" by simp
      with x le have "x = m" "sum_list xs = m * length xs" by linarith+
      with iff show "\<forall>y \<in> set (x # xs). y = m" by simp
    next
      assume "\<forall>y \<in> set (x # xs). y = m"
      with iff show "sum_list (x # xs) = m * length (x # xs)" by simp
    qed }
qed


lemma batchify_fn_Pad:
  assumes "batchify_fn samples = ((padded, vl), labels)"
  shows "Pad (map fst samples) = (padded, vl)"
  using assms by (simp add: batchify_fn_def)

text \<open>
  Claim C8. Every padded batch that the batch assembler produces satisfies
  \<open>max_len = max valid_lengths\<close>: every padded sequence has the largest pre-pad length of the
  batch's examples as its length, so that this is the time dimension of the padded array
  (the number of rows of its transpose, which the network receives).
\<close>

theorem C8_max_len:
  assumes "samples \<noteq> []"
    and "batchify_fn samples = ((padded, valid_lengths), labels)"
  shows "valid_lengths = map (\<lambda>s. length (fst s)) samples \<and>
         (\<forall>row \<in> set padded. length row = Max (set valid_lengths)) \<and>
         length (transpose padded) = Max (set valid_lengths)"
proof -
  note P = Pad_rows[OF batchify_fn_Pad[OF assms(2)]]
  have vl: "valid_lengths = map (\<lambda>s. length (fst s)) samples"
    using P(1) by (simp add: comp_def)
  then have ne: "valid_lengths \<noteq> []" "padded \<noteq> []"
    using assms(1) P(2) by auto
  have rows: "\<forall>row \<in> set padded. length row = Max (set valid_lengths)"
    using P(3) foldr_max_Max[OF ne(1)] by simp
  from length_transpose_rect[OF ne(2) rows] vl rows show ?thesis
    by simp
qed

theorem C8_max_len_witness:
  "batchify_fn [([1, 2, 3], 1), ([4], 0)] = (([[1, 2, 3], [4, 0, 0]], [3, 1]), [1, 0]) \<and>
   length (transpose [[1, 2, 3], [4, 0, 0 :: nat]]) = Max (set [3, 1 :: nat]) \<and>
   Max (set [3, 1 :: nat]) = 3"
proof -
  let ?S = "[([1, 2, 3], 1), ([4 :: nat], 0 :: int)]"
  have ne: "?S \<noteq> []" by simp
  have run: "batchify_fn ?S = (([[1, 2, 3], [4, 0, 0]], [3, 1]), [1, 0])"
    by (simp add: batchify_fn_def Pad_def Stack_def numeral_2_eq_2)
  from C8_max_len[OF ne run]
  have "length (transpose [[1, 2, 3], [4, 0, 0 :: nat]]) = Max (set [3, 1 :: nat])"
    by (elim conjE)
  with run show ?thesis by simp
qed

text \<open>
  Claim C9. For every batch of the batch assembler the sum of the valid lengths is at most
  \<open>max_len * batch_size\<close>, the number of elements of the padded array, and the two are equal
  if and only if all examples of the batch have the same length.
\<close>

theorem C9_padding_bound:
  assumes "batchify_fn samples = ((padded, valid_lengths), labels)"
  shows "length (concat padded) = length (transpose padded) * length samples \<and>
         sum_list valid_lengths \<le> length (transpose padded) * length samples \<and>
         (sum_list valid_lengths = length (transpose padded) * length samples \<longleftrightarrow>
            (\<forall>a \<in> set samples. \<forall>b \<in> set samples. length (fst a) = length (fst b)))"
proof (cases "samples = []")
  case True
  then show ?thesis
    using assms by (simp add: batchify_fn_def Pad_def)
next
  case False
  note P = Pad_rows[OF batchify_fn_Pad[OF assms]]
  let ?m = "foldr max valid_lengths 0"
  have vl: "valid_lengths = map (\<lambda>s. length (fst s)) samples"
    using P(1) by (simp add: comp_def)
  then have ne: "valid_lengths \<noteq> []" "padded \<noteq> []"
    using False P(2) by auto
  have T: "length (transpose padded) = ?m"
    using length_transpose_rect[OF ne(2) P(3)] .
  have "sum_list (map length padded) = ?m * length padded"
    using P(3) by (induction padded) auto
  then have total: "length (concat padded) = ?m * length samples"
    using P(2) by (simp add: length_concat)
  have bound: "\<forall>x \<in> set valid_lengths. x \<le> ?m"
    using foldr_max_upper by blast
  have n: "length valid_lengths = length samples"
    using vl by simp
  have le: "sum_list valid_lengths \<le> ?m * length samples"
    using sum_list_bounded(1)[OF bound] n by simp
  have eq: "sum_list valid_lengths = ?m * length samples \<longleftrightarrow> (\<forall>x \<in> set valid_lengths. x = ?m)"
    using sum_list_bounded(2)[OF bound] n by simp
  have "(\<forall>x \<in> set valid_lengths. x = ?m) \<longleftrightarrow>
        (\<forall>a \<in> set samples. \<forall>b \<in> set samples. length (fst a) = length (fst b))"
  proof
    assume "\<forall>x \<in> set valid_lengths. x = ?m"
    then show "\<forall>a \<in> set samples. \<forall>b \<in> set samples. length (fst a) = length (fst b)"
      unfolding vl by simp
  next
    assume same: "\<forall>a \<in> set samples. \<forall>b \<in> set samples. length (fst a) = length (fst b)"
    have "?m \<in> set valid_lengths"
      using foldr_max_mem[OF ne(1)] .
    then obtain a where a: "a \<in> set samples" "?m = length (fst a)"
      unfolding vl by auto
    show "\<forall>x \<in> set valid_lengths. x = ?m"
    proof
      fix x assume "x \<in> set valid_lengths"
      then obtain b where "b \<in> set samples" "x = length (fst b)"
        unfolding vl by auto
      with same a show "x = ?m" by metis
    qed
  qed
  with eq le total T show ?thesis by simp
qed

theorem C9_padding_bound_witness:
  "batchify_fn [([1, 2, 3], 1), ([4], 0)] = (([[1, 2, 3], [4, 0, 0]], [3, 1]), [1, 0]) \<and>
   length (concat [[1, 2, 3], [4, 0, 0 :: nat]]) = 6 \<and>
   sum_list [3, 1 :: nat] \<le> length (transpose [[1, 2, 3], [4, 0, 0 :: nat]]) * length [([1, 2, 3], 1), ([4 :: nat], 0 :: int)] \<and>
   sum_list [3, 1 :: nat] \<noteq> length (transpose [[1, 2, 3], [4, 0, 0 :: nat]]) * length [([1, 2, 3], 1), ([4 :: nat], 0 :: int)]"
proof -
  let ?S = "[([1, 2, 3], 1), ([4 :: nat], 0 :: int)]"
  let ?P = "[[1, 2, 3], [4, 0, 0 :: nat]]"
  have run: "batchify_fn ?S = ((?P, [3, 1]), [1, 0])"
    by (simp add: batchify_fn_def Pad_def Stack_def numeral_2_eq_2)
  note c9 = C9_padding_bound[OF run]
  from c9 have le: "sum_list [3, 1 :: nat] \<le> length (transpose ?P) * length ?S"
    by (elim conjE)
  from c9 have iff: "sum_list [3, 1 :: nat] = length (transpose ?P) * length ?S \<longleftrightarrow>
            (\<forall>a \<in> set ?S. \<forall>b \<in> set ?S. length (fst a) = length (fst b))"
    by (elim conjE)
  have "\<not> (\<forall>a \<in> set ?S. \<forall>b \<in> set ?S. length (fst a) = length (fst b))"
    by simp
  with iff have ne: "sum_list [3, 1 :: nat] \<noteq> length (transpose ?P) * length ?S"
    by blast
  have "length (concat ?P) = 6" by simp
  with run le ne show ?thesis by (intro conjI)
qed

section \<open>Zero-length examples\<close>

lemma MeanPoolingLayer_zero_length:
  assumes "has_shape (T, N, C) F" "length vl = N" "j < N" "vl ! j = 0"
  shows "\<exists>P. MeanPoolingLayer F vl = Inr P \<and> length (P ! j) = C \<and> (\<forall>c<C. P ! j ! c = NaN)"
proof -
  from MeanPoolingLayer_value[OF assms(1,2)] obtain P where
    P: "MeanPoolingLayer F vl = Inr P"
       "\<And>j. j < N \<Longrightarrow> length (P ! j) = C"
       "\<And>j c. j < N \<Longrightarrow> c < C \<Longrightarrow>
          P ! j ! c = fdiv (\<Sum>t<min (vl ! j) T. F ! t ! j ! c) (real (vl ! j))"
    by blast
  have "P ! j ! c = NaN" if "c < C" for c
    using P(3)[OF assms(3) that] assms(4) by (simp add: fdiv_def)
  with P(1) P(2)[OF assms(3)] show ?thesis by blast
qed

lemma chunks_nth:
  assumes "0 < n" "i < length xs"
  shows "i div n < length (chunks n xs) \<and>
         i mod n < length (chunks n xs ! (i div n)) \<and>
         chunks n xs ! (i div n) ! (i mod n) = xs ! i"
  using assms
proof (induction n xs arbitrary: i rule: chunks.induct)
  case (1 n xs)
  then have ne: "\<not> (n = 0 \<or> xs = [])" by auto
  then have unf: "chunks n xs = take n xs # chunks n (drop n xs)"
    by (subst chunks.simps) simp
  show ?case
  proof (cases "i < n")
    case True
    then show ?thesis
      using 1(2,3) unf by simp
  next
    case False
    then have ge: "n \<le> i" by simp
    then have "i - n < length (drop n xs)"
      using 1(3) by simp
    from 1(1)[OF ne 1(2) this]
    have IH: "(i - n) div n < length (chunks n (drop n xs))"
      "(i - n) mod n < length (chunks n (drop n xs) ! ((i - n) div n))"
      "chunks n (drop n xs) ! ((i - n) div n) ! ((i - n) mod n) = drop n xs ! (i - n)"
      by auto
    have d: "i div n = Suc ((i - n) div n)"
      using ge 1(2) by (simp add: le_div_geq)
    have m: "i mod n = (i - n) mod n"
      using ge by (simp add: le_mod_geq)
    have "drop n xs ! (i - n) = xs ! i"
      using ge 1(3) by simp
    with IH show ?thesis
      unfolding unf d m by simp
  qed
qed

lemma get_length_zero_iff:
  "get_length (preprocess tokenizer vcb x) = 0 \<longleftrightarrow> length_clip (tokenizer (fst x)) = []"
  by (cases x) (simp add: get_length_def preprocess_def vocab_getitem_def Let_def)


lemma FixedBucketSampler_returns:
  assumes "1 \<le> num_buckets" "1 \<le> batch_size"
  shows "\<exists>batches g'. FixedBucketSampler bucket_scheme shuffle_ids shuffle_batches
           lengths batch_size num_buckets ratio shuffle g = Inr (batches, g')"
  using assms by (simp add: FixedBucketSampler_def Let_def split: prod.splits)

lemma batchify_fn_valid_length:
  assumes "k < length samples"
  shows "snd (fst (batchify_fn samples)) ! k = length (fst (samples ! k))"
    and "length (snd (fst (batchify_fn samples))) = length samples"
  using assms by (simp_all add: batchify_fn_def Pad_def Let_def)

text \<open>
  Claim C3 as amended. A training example whose token sequence has length 0 after
  tokenization and clipping is rejected with a data error before batching: the bucket
  sampler that \<^verbatim>\<open>get_dataloader\<close> builds from the training lengths refuses it, and no loader
  is returned. A held-out example of length 0 is neither rejected nor filtered: the test
  loader assembles the preprocessed test dataset in sequential batches without a check of
  the lengths, the batch that holds the example records the valid length 0 for it, and on
  every array of features that the encoder returns for that batch the pooling layer raises
  no error and returns \<open>nan\<close> (the float quotient \<open>0 / 0\<close>) in every channel of that
  example.
\<close>

theorem C3_zero_length_held_out:
  assumes tr: "preprocess_dataset tokenizer vcb raw_train = (train_dataset, train_data_lengths)"
    and te: "preprocess_dataset tokenizer vcb raw_test = (test_dataset, test_data_lengths)"
    and cfg: "1 \<le> batch_size" "1 \<le> bucket_num"
  shows
    "((\<exists>x \<in> set raw_train. length_clip (tokenizer (fst x)) = []) \<longrightarrow>
        get_dataloader bucket_scheme shuffle_ids shuffle_batches train_dataset train_data_lengths
          test_dataset batch_size bucket_num bucket_ratio g = Inl DataError) \<and>
     ((\<forall>x \<in> set raw_train. length_clip (tokenizer (fst x)) \<noteq> []) \<longrightarrow>
        (\<exists>train test g'.
           get_dataloader bucket_scheme shuffle_ids shuffle_batches train_dataset
             train_data_lengths test_dataset batch_size bucket_num bucket_ratio g
             = Inr ((train, test), g') \<and>
           (\<forall>i<length raw_test. length_clip (tokenizer (fst (raw_test ! i))) = [] \<longrightarrow>
              i div batch_size < length test \<and>
              (case test ! (i div batch_size) of
                 ((data, valid_length), label) \<Rightarrow>
                   i mod batch_size < length valid_length \<and>
                   valid_length ! (i mod batch_size) = 0 \<and>
                   (\<forall>(net :: sentiment_net) T C.
                      has_shape (T, length valid_length, C)
                        (encoder net (embedding net (transpose data))) \<longrightarrow>
                      (\<exists>P. MeanPoolingLayer (encoder net (embedding net (transpose data)))
                              valid_length = Inr P \<and>
                           length (P ! (i mod batch_size)) = C \<and>
                           (\<forall>c<C. P ! (i mod batch_size) ! c = NaN)))))))"
proof (intro conjI impI)
  let ?ls = "map (\<lambda>l. nat \<lfloor>l\<rfloor>) train_data_lengths"
  have ls: "?ls = map (\<lambda>x. length (fst (preprocess tokenizer vcb x))) raw_train"
    using tr by (auto simp: preprocess_dataset_def Let_def get_length_def)
  have len0: "length (fst (preprocess tokenizer vcb x)) = 0 \<longleftrightarrow> length_clip (tokenizer (fst x)) = []"
    for x
    by (cases x) (simp add: preprocess_def vocab_getitem_def Let_def)
  {
    assume "\<exists>x \<in> set raw_train. length_clip (tokenizer (fst x)) = []"
    then have "0 \<in> set ?ls"
      unfolding ls using len0 by force
    then show "get_dataloader bucket_scheme shuffle_ids shuffle_batches train_dataset
        train_data_lengths test_dataset batch_size bucket_num bucket_ratio g = Inl DataError"
      by (simp add: get_dataloader_def FixedBucketSampler_init_def)
  }
  {
    assume "\<forall>x \<in> set raw_train. length_clip (tokenizer (fst x)) \<noteq> []"
    then have no0: "0 \<notin> set ?ls"
      unfolding ls using len0 by auto
    from FixedBucketSampler_returns[OF cfg(2,1), of bucket_scheme shuffle_ids shuffle_batches
        ?ls bucket_ratio True g]
    obtain batches g' where
      "FixedBucketSampler bucket_scheme shuffle_ids shuffle_batches ?ls batch_size bucket_num
         bucket_ratio True g = Inr (batches, g')"
      by blast
    with no0 have run: "get_dataloader bucket_scheme shuffle_ids shuffle_batches train_dataset
        train_data_lengths test_dataset batch_size bucket_num bucket_ratio g
        = Inr ((DataLoader_sampler train_dataset batches,
                DataLoader_sequential test_dataset batch_size), g')"
      by (simp add: get_dataloader_def FixedBucketSampler_init_def)
    let ?test = "DataLoader_sequential test_dataset batch_size"
    have td: "test_dataset = map (preprocess tokenizer vcb) raw_test"
      using te by (auto simp: preprocess_dataset_def Let_def)
    have "i div batch_size < length ?test \<and>
          (case ?test ! (i div batch_size) of
             ((data, valid_length), label) \<Rightarrow>
               i mod batch_size < length valid_length \<and>
               valid_length ! (i mod batch_size) = 0 \<and>
               (\<forall>(net :: sentiment_net) T C.
                  has_shape (T, length valid_length, C)
                    (encoder net (embedding net (transpose data))) \<longrightarrow>
                  (\<exists>P. MeanPoolingLayer (encoder net (embedding net (transpose data)))
                          valid_length = Inr P \<and>
                       length (P ! (i mod batch_size)) = C \<and>
                       (\<forall>c<C. P ! (i mod batch_size) ! c = NaN))))"
      if i: "i < length raw_test" and empty: "length_clip (tokenizer (fst (raw_test ! i))) = []"
      for i
    proof -
      let ?q = "i div batch_size" and ?r = "i mod batch_size"
      let ?chunk = "chunks batch_size test_dataset ! ?q"
      have pos: "0 < batch_size" using cfg(1) by simp
      have il: "i < length test_dataset" using i td by simp
      note ch = chunks_nth[OF pos il]
      have q: "?q < length ?test"
        using ch by (simp add: DataLoader_sequential_def)
      have b: "?test ! ?q = batchify_fn ?chunk"
        using ch by (simp add: DataLoader_sequential_def)
      obtain data vl label where dvl: "batchify_fn ?chunk = ((data, vl), label)"
        by (metis surj_pair)
      have r: "?r < length ?chunk" using ch by simp
      have vlen: "length vl = length ?chunk"
        using batchify_fn_valid_length(2)[OF r] dvl by simp
      have "vl ! ?r = length (fst (?chunk ! ?r))"
        using batchify_fn_valid_length(1)[OF r] dvl by simp
      also have "?chunk ! ?r = preprocess tokenizer vcb (raw_test ! i)"
        using ch td i by simp
      finally have z: "vl ! ?r = 0"
        using empty len0 by simp
      have "\<exists>P. MeanPoolingLayer (encoder net (embedding net (transpose data))) vl = Inr P \<and>
                 length (P ! ?r) = C \<and> (\<forall>c<C. P ! ?r ! c = NaN)"
        if "has_shape (T, length vl, C) (encoder net (embedding net (transpose data)))"
        for net :: sentiment_net and T C
        using MeanPoolingLayer_zero_length[OF that refl _ z] r vlen by simp
      with q b dvl r vlen z show ?thesis by simp
    qed
    with run show "\<exists>train test g'.
           get_dataloader bucket_scheme shuffle_ids shuffle_batches train_dataset
             train_data_lengths test_dataset batch_size bucket_num bucket_ratio g
             = Inr ((train, test), g') \<and>
           (\<forall>i<length raw_test. length_clip (tokenizer (fst (raw_test ! i))) = [] \<longrightarrow>
              i div batch_size < length test \<and>
              (case test ! (i div batch_size) of
                 ((data, valid_length), label) \<Rightarrow>
                   i mod batch_size < length valid_length \<and>
                   valid_length ! (i mod batch_size) = 0 \<and>
                   (\<forall>(net :: sentiment_net) T C.
                      has_shape (T, length valid_length, C)
                        (encoder net (embedding net (transpose data))) \<longrightarrow>
                      (\<exists>P. MeanPoolingLayer (encoder net (embedding net (transpose data)))
                              valid_length = Inr P \<and>
                           length (P ! (i mod batch_size)) = C \<and>
                           (\<forall>c<C. P ! (i mod batch_size) ! c = NaN)))))"
      by blast
  }
qed


lemma chars_dataset:
  "preprocess_dataset (map (\<lambda>c. [c]))
     \<lparr>token_to_idx = [''a'' \<mapsto> 1, ''b'' \<mapsto> 2], unknown_idx = 0\<rparr> [('''', 3), (''ab'', 8)]
     = ([([], 0), ([1, 2], 1)], [0, 2])"
  "preprocess_dataset (map (\<lambda>c. [c]))
     \<lparr>token_to_idx = [''a'' \<mapsto> 1, ''b'' \<mapsto> 2], unknown_idx = 0\<rparr> [(''ab'', 8)]
     = ([([1, 2], 1)], [2])"
  "preprocess_dataset (map (\<lambda>c. [c]))
     \<lparr>token_to_idx = [''a'' \<mapsto> 1, ''b'' \<mapsto> 2], unknown_idx = 0\<rparr> [('''', 3)]
     = ([([], 0)], [0])"
  by (simp_all add: preprocess_dataset_def preprocess_def get_length_def vocab_getitem_def
      length_clip_def)

lemma chars_loaders:
  "get_dataloader (\<lambda>ls n. map (\<lambda>i. 2 * (i + 1)) [0..<n])
     (\<lambda>g xs. (rev xs, Suc g)) (\<lambda>g xs. (rev xs, Suc g))
     [([1, 2], 1)] [2] [([], 0), ([1, 2], 1)] 2 1 0 (0::nat)
   = Inr (([(([[1, 2]], [2]), [1])], [(([[0, 0], [1, 2]], [0, 2]), [0, 1])]), 2)"
  by (simp add: get_dataloader_def FixedBucketSampler_init_def FixedBucketSampler_def
      bucket_of_def bucket_batch_size_def Let_def chunks.simps DataLoader_sampler_def
      DataLoader_sequential_def batchify_fn_def Pad_def Stack_def numeral_2_eq_2)

text \<open>
  Claim C3 says that every example whose token sequence has length 0 after tokenization and
  clipping is rejected or filtered with a data error before batching, and that the pooling
  step never silently divides by a zero valid length. The held-out path has no such check:
  for a test dataset of an empty review and the review \<^verbatim>\<open>ab\<close> (tokenised into characters
  here), the empty example stays in the preprocessed dataset with length \<open>0.0\<close>,
  \<^verbatim>\<open>get_dataloader\<close> returns a test loader whose batch holds it with the valid length 0, and
  the network returns \<open>nan\<close> for it without any error.
\<close>

theorem C3_zero_length_counterexample:
  "preprocess_dataset (map (\<lambda>c. [c]))
     \<lparr>token_to_idx = [''a'' \<mapsto> 1, ''b'' \<mapsto> 2], unknown_idx = 0\<rparr> [('''', 3), (''ab'', 8)]
     = ([([], 0), ([1, 2], 1)], [0, 2]) \<and>
   get_dataloader (\<lambda>ls n. map (\<lambda>i. 2 * (i + 1)) [0..<n])
     (\<lambda>g xs. (rev xs, Suc g)) (\<lambda>g xs. (rev xs, Suc g))
     [([1, 2], 1)] [2] [([], 0), ([1, 2], 1)] 2 1 0 (0::nat)
     = Inr (([(([[1, 2]], [2]), [1])], [(([[0, 0], [1, 2]], [0, 2]), [0, 1])]), 2) \<and>
   SentimentNet
     \<lparr>embedding = map (map (\<lambda>i. [real i])), encoder = (\<lambda>x. x), dropout = 0,
      weight = [1], bias = 0\<rparr>
     (transpose [[0, 0], [1, 2]]) [0, 2]
     = Inr [[NaN], [Fin (3 / 2)]]"
proof -
  have "SentimentNet
     \<lparr>embedding = map (map (\<lambda>i. [real i])), encoder = (\<lambda>x. x), dropout = 0,
      weight = [1], bias = 0\<rparr>
     (transpose [[0, 0], [1, 2]]) [0, 2]
     = Inr [[NaN], [Fin (3 / 2)]]"
    by (simp add: SentimentNet_def MeanPoolingLayer_def SequenceMask_def broadcast_div_def
        expand_dims_def fdiv_def enumerate_eq_zip Dense_def Dropout_def)
  with chars_dataset(1) chars_loaders show ?thesis by (intro conjI)
qed

theorem C3_zero_length_held_out_witness:
  "get_dataloader (\<lambda>ls n. map (\<lambda>i. 2 * (i + 1)) [0..<n])
     (\<lambda>g xs. (rev xs, Suc g)) (\<lambda>g xs. (rev xs, Suc g))
     [([], 0)] [0] [([], 0), ([1, 2], 1)] 2 1 0 (0::nat) = Inl DataError \<and>
   (\<exists>P. MeanPoolingLayer [[[0], [1]], [[0], [2]]] [0, 2] = Inr P \<and>
        length (P ! 0) = 1 \<and> (\<forall>c<1. P ! 0 ! c = NaN))"
proof -
  let ?tk = "map (\<lambda>c. [c]) :: string \<Rightarrow> string list"
  let ?v = "\<lparr>token_to_idx = [''a'' \<mapsto> 1, ''b'' \<mapsto> 2], unknown_idx = 0\<rparr>"
  let ?scheme = "\<lambda>(ls :: nat list) n. map (\<lambda>i. 2 * (i + 1)) [0..<n]"
  let ?shi = "\<lambda>(g :: nat) (xs :: nat list). (rev xs, Suc g)"
  let ?shb = "\<lambda>(g :: nat) (xs :: nat list list). (rev xs, Suc g)"
  let ?net = "\<lparr>embedding = map (map (\<lambda>i. [real i])), encoder = (\<lambda>x. x), dropout = 0,
      weight = [1], bias = 0\<rparr>"
  have cfg: "(1::nat) \<le> 2" "(1::nat) \<le> 1" by simp_all
  note A = C3_zero_length_held_out[OF chars_dataset(3) chars_dataset(1) cfg,
      of ?scheme ?shi ?shb 0 0, THEN conjunct1]
  have "\<exists>x \<in> set [('''', 3 :: int)]. length_clip (?tk (fst x)) = []"
    by (simp add: length_clip_def)
  with A have a: "get_dataloader ?scheme ?shi ?shb [([], 0)] [0] [([], 0), ([1, 2], 1)] 2 1 0
      (0::nat) = Inl DataError"
    by (rule mp)
  note B = C3_zero_length_held_out[OF chars_dataset(2) chars_dataset(1) cfg,
      of ?scheme ?shi ?shb 0 0, THEN conjunct2]
  have "\<forall>x \<in> set [(''ab'', 8 :: int)]. length_clip (?tk (fst x)) \<noteq> []"
    by (simp add: length_clip_def)
  with B obtain train test g' where
    run: "get_dataloader ?scheme ?shi ?shb [([1, 2], 1)] [2] [([], 0), ([1, 2], 1)] 2 1 0 (0::nat)
            = Inr ((train, test), g')"
    and all: "\<forall>i<length [('''', 3 :: int), (''ab'', 8)].
        length_clip (?tk (fst ([('''', 3 :: int), (''ab'', 8)] ! i))) = [] \<longrightarrow>
        i div 2 < length test \<and>
        (case test ! (i div 2) of
           ((data, valid_length), label) \<Rightarrow>
             i mod 2 < length valid_length \<and>
             valid_length ! (i mod 2) = 0 \<and>
             (\<forall>(net :: sentiment_net) T C.
                has_shape (T, length valid_length, C)
                  (encoder net (embedding net (transpose data))) \<longrightarrow>
                (\<exists>P. MeanPoolingLayer (encoder net (embedding net (transpose data)))
                        valid_length = Inr P \<and>
                     length (P ! (i mod 2)) = C \<and>
                     (\<forall>c<C. P ! (i mod 2) ! c = NaN))))"
    by blast
  from run chars_loaders have test: "test = [(([[0, 0], [1, 2]], [0, 2]), [0, 1])]"
    by simp
  from all[rule_format, of 0] have
    "\<forall>(net :: sentiment_net) T C.
        has_shape (T, length [0, 2 :: nat], C)
          (encoder net (embedding net (transpose [[0, 0], [1, 2]]))) \<longrightarrow>
        (\<exists>P. MeanPoolingLayer (encoder net (embedding net (transpose [[0, 0], [1, 2]])))
                [0, 2] = Inr P \<and>
             length (P ! 0) = C \<and> (\<forall>c<C. P ! 0 ! c = NaN))"
    unfolding test by (simp add: length_clip_def)
  from this[rule_format, of 2 1 ?net]
  have "\<exists>P. MeanPoolingLayer [[[0], [1]], [[0], [2]]] [0, 2] = Inr P \<and>
        length (P ! 0) = 1 \<and> (\<forall>c<1. P ! 0 ! c = NaN)"
    by (simp add: has_shape_def)
  with a show ?thesis by (intro conjI)
qed

section \<open>Prediction threshold and inference\<close>

lemma sigmoid_range: "0 < sigmoid x" "sigmoid x < 1"
proof -
  have "0 < exp (- x)" by simp
  then show "0 < sigmoid x" "sigmoid x < 1"
    unfolding sigmoid_def by (simp_all add: add_pos_pos)
qed

lemma sigmoid_zero: "sigmoid 0 = 1 / 2"
  by (simp add: sigmoid_def)

lemma sigmoid_gt_half: "1 / 2 < sigmoid x \<longleftrightarrow> 0 < x"
proof -
  have pos: "0 < 1 + exp (- x)"
    by (simp add: add_pos_pos)
  have "1 / 2 < sigmoid x \<longleftrightarrow> 1 + exp (- x) < 2"
    unfolding sigmoid_def using pos by (simp add: field_simps)
  also have "\<dots> \<longleftrightarrow> exp (- x) < exp 0" by simp
  also have "\<dots> \<longleftrightarrow> 0 < x" by (simp only: exp_less_cancel_iff) simp
  finally show ?thesis .
qed

text \<open>The prediction of \<^verbatim>\<open>evaluate\<close> for a finite logit \<open>x\<close> is positive exactly when
  \<open>x > 1/2\<close>; a logit of 0, whose sigmoid is \<open>1/2\<close>, is predicted negative.\<close>

lemma pred_of_logit: "pred_of [[Fin x]] = [if 1 / 2 < x then 1 else 0]"
  by (simp add: pred_of_def)

text \<open>
  Claim C1 says that the evaluation pass predicts positive if and only if the logit is
  greater than 0, that is if and only if \<open>sigmoid logit > 0.5\<close>. \<^verbatim>\<open>evaluate\<close> compares the raw
  output of the network, a logit, with \<open>0.5\<close>. For one example with the label 1 and the logit
  \<open>1/4\<close>, whose sigmoid is above \<open>1/2\<close>, the prediction is negative and the accuracy is 0,
  whatever the loss function.
\<close>

theorem C1_evaluate_threshold:
  "SentimentNet
     \<lparr>embedding = map (map (\<lambda>i. [1 / 4])), encoder = (\<lambda>x. x), dropout = 0,
      weight = [1], bias = 0\<rparr> (transpose [[7]]) [1] = Inr [[Fin (1 / 4)]] \<and>
   map_sum id snd
     (evaluate
        (SentimentNet
           \<lparr>embedding = map (map (\<lambda>i. [1 / 4])), encoder = (\<lambda>x. x), dropout = 0,
            weight = [1], bias = 0\<rparr>)
        loss [(([[7]], [1]), [1])]) = Inr 0 \<and>
   1 / 2 < sigmoid (1 / 4)"
proof -
  let ?net = "\<lparr>embedding = map (map (\<lambda>i. [1 / 4 :: real])), encoder = (\<lambda>x. x), dropout = 0,
      weight = [1], bias = 0\<rparr>"
  have out: "SentimentNet ?net (transpose [[7]]) [1] = Inr [[Fin (1 / 4)]]"
    by (simp add: SentimentNet_def MeanPoolingLayer_def SequenceMask_def broadcast_div_def
        expand_dims_def fdiv_def enumerate_eq_zip Dense_def Dropout_def)
  have "evaluate_loop (SentimentNet ?net) loss [(([[7]], [1]), [1])] (Fin 0, 0, 0)
          = Inr (fadd (Fin 0) (foldr fadd (loss [[Fin (1 / 4)]] [1]) (Fin 0)), 1, 0)"
    using out by (simp add: pred_of_def correct_num_def)
  then have "map_sum id snd (evaluate (SentimentNet ?net) loss [(([[7]], [1]), [1])]) = Inr 0"
    by (simp add: evaluate_def)
  moreover have "1 / 2 < sigmoid (1 / 4)"
    by (simp only: sigmoid_gt_half)
  ultimately show ?thesis using out by (intro conjI)
qed

lemma chars_ids:
  "vocab_getitem \<lparr>token_to_idx = [''a'' \<mapsto> 1, ''b'' \<mapsto> 2], unknown_idx = 0\<rparr>
     (map (\<lambda>c. [c]) ''aaaab'') = [1, 1, 1, 1, 2]"
  by (simp add: vocab_getitem_def)

text \<open>The result of the inference cell is a sigmoid value, strictly between 0 and 1, whenever
  the encoder returns an array of shape \<open>(T, 1, C)\<close>.\<close>

lemma foldr_fadd_finite:
  assumes "\<forall>x \<in> set xs. \<exists>r. x = Fin r"
  shows "\<exists>r. foldr fadd xs (Fin a) = Fin r"
  using assms by (induction xs) auto

lemma Dense_finite:
  assumes "\<forall>x \<in> set row. \<exists>r. x = Fin r"
  shows "\<exists>r. Dense w b [row] = [[Fin r]]"
proof -
  have "\<exists>r. fmul (Fin wc) xc = Fin r" if "xc \<in> set row" for wc xc
    using assms that by fastforce
  then have "\<forall>x \<in> set (map2 (\<lambda>wc xc. fmul (Fin wc) xc) w row). \<exists>r. x = Fin r"
    by (auto dest: set_zip_rightD)
  from foldr_fadd_finite[OF this, of 0] show ?thesis
    by (auto simp: Dense_def)
qed

lemma res_probability:
  assumes "has_shape (T, 1, C)
             (encoder net (embedding net (map (\<lambda>i. [i]) (vocab_getitem vcb (tokenizer text)))))"
  shows "\<exists>p. res net tokenizer vcb text = Inr [[Fin p]] \<and> 0 < p \<and> p < 1"
proof -
  let ?F = "encoder net (embedding net (map (\<lambda>i. [i]) (vocab_getitem vcb (tokenizer text))))"
  from MeanPoolingLayer_value[OF assms, of "[4]"] obtain P where
    P: "MeanPoolingLayer ?F [4] = Inr P" "length P = 1" "length (P ! 0) = C"
       "\<And>c. c < C \<Longrightarrow> P ! 0 ! c = fdiv (\<Sum>t<min 4 T. ?F ! t ! 0 ! c) 4"
    by auto
  from P(2) obtain row where row: "P = [row]"
    by (cases P) auto
  have "\<exists>r. row ! c = Fin r" if "c < C" for c
  proof -
    have "row ! c = Fin ((\<Sum>t<min 4 T. ?F ! t ! 0 ! c) / 4)"
      using P(4)[OF that] row by (simp add: fdiv_def)
    then show ?thesis ..
  qed
  then have "\<forall>x \<in> set row. \<exists>r. x = Fin r"
    using P(3) row by (auto simp: in_set_conv_nth)
  from Dense_finite[OF this] obtain r where "Dense (weight net) (bias net) [row] = [[Fin r]]"
    by blast
  then have "res net tokenizer vcb text = Inr [[Fin (sigmoid r)]]"
    using P(1) row by (simp add: res_def SentimentNet_def Dropout_def)
  then show ?thesis
    using sigmoid_range by blast
qed

text \<open>
  Claim C4 says that the single-sentence inference wraps the ids as a batch of one example
  whose valid length is the number of tokens. The notebook passes the literal \<open>[4]\<close>. For a
  sentence of five tokens whose first four have the feature 1 and whose last has the
  feature \<open>- 9\<close>, the notebook's result is the sigmoid of the mean of the first four features,
  above \<open>1/2\<close>, and the pipeline of the claim gives the sigmoid of the mean of all five,
  below \<open>1/2\<close>.
\<close>

theorem C4_valid_length_literal:
  "res \<lparr>embedding = map (map (\<lambda>i. [if i = 2 then - 9 else 1])), encoder = (\<lambda>x. x),
        dropout = 0, weight = [1], bias = 0\<rparr>
       (map (\<lambda>c. [c])) \<lparr>token_to_idx = [''a'' \<mapsto> 1, ''b'' \<mapsto> 2], unknown_idx = 0\<rparr> ''aaaab''
     = Inr [[Fin (sigmoid 1)]] \<and>
   predict_spec \<lparr>embedding = map (map (\<lambda>i. [if i = 2 then - 9 else 1])), encoder = (\<lambda>x. x),
        dropout = 0, weight = [1], bias = 0\<rparr>
       (map (\<lambda>c. [c])) \<lparr>token_to_idx = [''a'' \<mapsto> 1, ''b'' \<mapsto> 2], unknown_idx = 0\<rparr> ''aaaab''
     = Inr [[Fin (sigmoid (- 1))]] \<and>
   sigmoid (- 1) < 1 / 2 \<and> 1 / 2 < sigmoid 1"
proof -
  let ?net = "\<lparr>embedding = map (map (\<lambda>i. [if i = 2 then - 9 else 1 :: real])), encoder = (\<lambda>x. x),
        dropout = 0, weight = [1], bias = 0\<rparr>"
  let ?tk = "map (\<lambda>c. [c]) :: string \<Rightarrow> string list"
  let ?v = "\<lparr>token_to_idx = [''a'' \<mapsto> 1, ''b'' \<mapsto> 2], unknown_idx = 0\<rparr>"
  have a: "res ?net ?tk ?v ''aaaab'' = Inr [[Fin (sigmoid 1)]]"
    unfolding res_def chars_ids
    by (simp add: SentimentNet_def MeanPoolingLayer_def SequenceMask_def broadcast_div_def
        expand_dims_def fdiv_def enumerate_eq_zip Dense_def Dropout_def)
  have b: "predict_spec ?net ?tk ?v ''aaaab'' = Inr [[Fin (sigmoid (- 1))]]"
    unfolding predict_spec_def chars_ids
    by (simp add: SentimentNet_def MeanPoolingLayer_def SequenceMask_def broadcast_div_def
        expand_dims_def fdiv_def enumerate_eq_zip Dense_def Dropout_def)
  have c: "1 / 2 < sigmoid 1"
    by (simp only: sigmoid_gt_half)
  have "\<not> 1 / 2 < sigmoid (- 1)"
    by (simp only: sigmoid_gt_half)
  moreover have "sigmoid (- 1) \<noteq> 1 / 2"
  proof
    assume "sigmoid (- 1) = 1 / 2"
    then have "1 + exp (1::real) = 2"
      by (simp add: sigmoid_def field_simps)
    then have "exp (1::real) = exp 0" by simp
    then show False by simp
  qed
  ultimately have d: "sigmoid (- 1) < 1 / 2" by simp
  from a b c d show ?thesis by (intro conjI)
qed

section \<open>Determinism of the sampler\<close>

lemma FixedBucketSampler_no_shuffle:
  assumes "1 \<le> num_buckets" "1 \<le> batch_size"
  shows "\<exists>batches. \<forall>shuffle_ids shuffle_batches g.
           FixedBucketSampler bucket_scheme shuffle_ids shuffle_batches
             lengths batch_size num_buckets ratio False (g :: 'g) = Inr (batches, g)"
  using assms by (simp add: FixedBucketSampler_def Let_def)

lemma FixedBucketSampler_config_error:
  assumes "num_buckets < 1 \<or> batch_size < 1"
  shows "FixedBucketSampler bucket_scheme shuffle_ids shuffle_batches
           lengths batch_size num_buckets ratio shuffle g = Inl ConfigError"
  using assms by (simp add: FixedBucketSampler_def)

text \<open>
  Claim C7. With \<open>shuffle = False\<close> the batches of the sampler do not depend on the random
  state nor on the shuffling functions, so that two runs on the same lengths give the same
  partition of the example indices into batches: iterating the sampler twice either fails
  both times with the configuration error or yields the same list of batches twice.
\<close>

theorem C7_sampler_deterministic:
  "map_sum id fst
     (FixedBucketSampler bucket_scheme shuffle_ids shuffle_batches
        lengths batch_size num_buckets ratio False (g :: 'g)) =
   map_sum id fst
     (FixedBucketSampler bucket_scheme shuffle_ids' shuffle_batches'
        lengths batch_size num_buckets ratio False (g' :: 'g)) \<and>
   (case sample_twice bucket_scheme shuffle_ids shuffle_batches
           lengths batch_size num_buckets ratio False g of
      Inl e \<Rightarrow> e = ConfigError \<and> (num_buckets < 1 \<or> batch_size < 1)
    | Inr (first, second) \<Rightarrow> first = second \<and> 1 \<le> num_buckets \<and> 1 \<le> batch_size)"
proof (cases "num_buckets < 1 \<or> batch_size < 1")
  case True
  then show ?thesis
    by (simp add: FixedBucketSampler_config_error sample_twice_def)
next
  case False
  then have ok: "1 \<le> num_buckets" "1 \<le> batch_size" by auto
  from FixedBucketSampler_no_shuffle[OF ok, of bucket_scheme lengths ratio]
  obtain batches where
    b: "\<And>shuffle_ids shuffle_batches (g :: 'g).
          FixedBucketSampler bucket_scheme shuffle_ids shuffle_batches
            lengths batch_size num_buckets ratio False g = Inr (batches, g)"
    by blast
  show ?thesis
    using ok by (simp add: b sample_twice_def)
qed

theorem C7_sampler_deterministic_witness:
  "sample_twice (\<lambda>ls n. map (\<lambda>i. 2 * (i + 1)) [0..<n])
     (\<lambda>g xs. (rev xs, Suc g)) (\<lambda>g xs. (rev xs, Suc g)) [3, 1, 4, 2, 1] 2 2 0 False (0::nat)
   = Inr ([[1, 3], [4], [0, 2]], [[1, 3], [4], [0, 2]])"
proof -
  let ?scheme = "\<lambda>(ls :: nat list) n. map (\<lambda>i. 2 * (i + 1)) [0..<n]"
  let ?shi = "\<lambda>(g :: nat) (xs :: nat list). (rev xs, Suc g)"
  let ?shb = "\<lambda>(g :: nat) (xs :: nat list list). (rev xs, Suc g)"
  have one: "FixedBucketSampler ?scheme ?shi ?shb [3, 1, 4, 2, 1] 2 2 0 False (0::nat)
          = Inr ([[1, 3], [4], [0, 2]], 0)"
    by (simp add: FixedBucketSampler_def bucket_of_def bucket_batch_size_def Let_def
        upt_conv_Cons chunks.simps)
  from C7_sampler_deterministic[of ?scheme ?shi ?shb "[3, 1, 4, 2, 1]" 2 2 0 0 ?shi ?shb 0]
  have "case sample_twice ?scheme ?shi ?shb [3, 1, 4, 2, 1] 2 2 0 False (0::nat) of
      Inl e \<Rightarrow> e = ConfigError \<and> ((2::nat) < 1 \<or> (2::nat) < 1)
    | Inr (first, second) \<Rightarrow> first = second \<and> (1::nat) \<le> 2 \<and> (1::nat) \<le> 2"
    by (rule conjunct2)
  moreover obtain r where r: "sample_twice ?scheme ?shi ?shb [3, 1, 4, 2, 1] 2 2 0 False (0::nat) = r"
    by simp
  ultimately have "\<exists>b. r = Inr (b, b)"
    by (cases r) (auto split: prod.splits)
  then obtain b where rb: "r = Inr (b, b)" by blast
  have "b = [[1, 3], [4], [0, 2]]"
    using r rb one by (simp add: sample_twice_def)
  with r rb show ?thesis by simp
qed

text \<open>With \<open>shuffle = True\<close> the batches do depend on the random state.\<close>

lemma sampler_shuffle_uses_rng:
  "map_sum id fst
     (FixedBucketSampler (\<lambda>ls n. map (\<lambda>i. 2 * (i + 1)) [0..<n])
        (\<lambda>g xs. (if even g then xs else rev xs, Suc g)) (\<lambda>g xs. (xs, g))
        [3, 1, 4, 2, 1] 2 2 0 True (0::nat)) \<noteq>
   map_sum id fst
     (FixedBucketSampler (\<lambda>ls n. map (\<lambda>i. 2 * (i + 1)) [0..<n])
        (\<lambda>g xs. (if even g then xs else rev xs, Suc g)) (\<lambda>g xs. (xs, g))
        [3, 1, 4, 2, 1] 2 2 0 True (1::nat))"
  by (simp add: FixedBucketSampler_def bucket_of_def bucket_batch_size_def Let_def
      upt_conv_Cons chunks.simps)

section \<open>Float32 rounding and scaling by a power of two\<close>

lemma expo_bounds:
  assumes "x \<noteq> 0"
  shows "2 powi (expo x) \<le> \<bar>x\<bar>" and "\<bar>x\<bar> < 2 powi (expo x + 1)"
proof -
  define a where "a = \<bar>x\<bar>"
  have a: "0 < a" using assms by (simp add: a_def)
  have "2 powi (expo x) \<le> a \<and> a < 2 powi (expo x + 1)"
  proof (cases "1 \<le> a")
    case True
    define n where "n = \<lfloor>a\<rfloor>"
    have n: "0 < n" using True by (simp add: n_def)
    have e: "expo x = bitlen n - 1"
      using True by (simp add: expo_def a_def n_def)
    have b1: "1 \<le> bitlen n" using n by (simp add: bitlen_alt_def)
    from bitlen_bounds[OF n] have lo: "2 ^ nat (bitlen n - 1) \<le> n" and hi: "n < 2 ^ nat (bitlen n)"
      by auto
    have "2 powi (bitlen n - 1) = (2::real) ^ nat (bitlen n - 1)"
      using b1 by (simp add: power_int_def)
    also have "\<dots> = real_of_int (2 ^ nat (bitlen n - 1))" by simp
    also have "\<dots> \<le> real_of_int n" using lo by (simp only: of_int_le_iff)
    also have "\<dots> \<le> a" by (simp add: n_def)
    finally have L: "2 powi (expo x) \<le> a" by (simp add: e)
    have "n + 1 \<le> 2 ^ nat (bitlen n)" using hi by simp
    then have "real_of_int (n + 1) \<le> real_of_int (2 ^ nat (bitlen n))"
      by (simp only: of_int_le_iff)
    moreover have "a < real_of_int (n + 1)" by (simp add: n_def)
    ultimately have "a < (2::real) ^ nat (bitlen n)" by simp
    also have "\<dots> = 2 powi (bitlen n)"
      using b1 by (simp add: power_int_def)
    finally have "a < 2 powi (expo x + 1)" by (simp add: e)
    with L show ?thesis by simp
  next
    case False
    then have a1: "a < 1" by simp
    define y where "y = 1 / a"
    have y: "1 < y" using a a1 by (simp add: y_def)
    define m where "m = \<lceil>y\<rceil> - 1"
    have m: "0 < m" using y by (simp add: m_def less_ceiling_iff)
    have e: "expo x = - bitlen m"
      using False by (simp add: expo_def a_def[symmetric] m_def y_def)
    have b1: "1 \<le> bitlen m" using m by (simp add: bitlen_alt_def)
    from bitlen_bounds[OF m] have lo: "2 ^ nat (bitlen m - 1) \<le> m" and hi: "m < 2 ^ nat (bitlen m)"
      by auto
    have ym: "real_of_int m < y" "y \<le> real_of_int (m + 1)"
      by (simp_all add: m_def less_ceiling_iff[symmetric]) linarith
    have "m + 1 \<le> 2 ^ nat (bitlen m)" using hi by simp
    then have "real_of_int (m + 1) \<le> real_of_int (2 ^ nat (bitlen m))"
      by (simp only: of_int_le_iff)
    with ym have yhi: "y \<le> 2 ^ nat (bitlen m)" by simp
    have "real_of_int (2 ^ nat (bitlen m - 1)) \<le> real_of_int m"
      using lo by (simp only: of_int_le_iff)
    then have "(2::real) ^ nat (bitlen m - 1) \<le> real_of_int m" by simp
    with ym(1) have ylo: "2 ^ nat (bitlen m - 1) < y" by linarith
    have p: "2 powi (- bitlen m) = 1 / (2::real) ^ nat (bitlen m)"
      using b1 by (simp add: power_int_def field_simps)
    have "1 / (2::real) ^ nat (bitlen m) \<le> a"
      using yhi a by (simp add: y_def field_simps)
    then have L: "2 powi (expo x) \<le> a" by (simp add: e p)
    have q: "2 powi (- bitlen m + 1) = 1 / (2::real) ^ nat (bitlen m - 1)"
    proof -
      have "- bitlen m + 1 = - (bitlen m - 1)" by simp
      also have "(2::real) powi (- (bitlen m - 1)) = 1 / 2 ^ nat (bitlen m - 1)"
        using b1 by (simp add: power_int_def field_simps)
      finally show ?thesis .
    qed
    have "a < 1 / (2::real) ^ nat (bitlen m - 1)"
      using ylo a by (simp add: y_def field_simps)
    then have "a < 2 powi (- bitlen m + 1)" by (simp only: q)
    then have "a < 2 powi (expo x + 1)" by (simp only: e)
    with L show ?thesis by simp
  qed
  then show "2 powi (expo x) \<le> \<bar>x\<bar>" and "\<bar>x\<bar> < 2 powi (expo x + 1)"
    by (simp_all add: a_def)
qed

lemma expo_unique:
  assumes "2 powi e \<le> \<bar>x\<bar>" "\<bar>x\<bar> < 2 powi (e + 1)"
  shows "expo x = e"
proof -
  have "0 < (2::real) powi e" by (simp add: zero_less_power_int)
  with assms(1) have "0 < \<bar>x\<bar>" by linarith
  then have x: "x \<noteq> 0" by simp
  note b = expo_bounds[OF x]
  have "\<not> expo x < e"
  proof
    assume "expo x < e"
    then have "(2::real) powi (expo x + 1) \<le> 2 powi e"
      by (intro power_int_increasing) auto
    with b(2) assms(1) show False by simp
  qed
  moreover have "\<not> e < expo x"
  proof
    assume "e < expo x"
    then have "(2::real) powi (e + 1) \<le> 2 powi (expo x)"
      by (intro power_int_increasing) auto
    with b(1) assms(2) show False by simp
  qed
  ultimately show ?thesis by simp
qed

lemma expo_scale:
  assumes "x \<noteq> 0"
  shows "expo (2 powi k * x) = expo x + k"
proof (rule expo_unique)
  note b = expo_bounds[OF assms]
  have p: "0 < (2::real) powi k" by (simp add: zero_less_power_int)
  have abs: "\<bar>2 powi k * x\<bar> = 2 powi k * \<bar>x\<bar>"
    using p by (simp add: abs_mult)
  show "2 powi (expo x + k) \<le> \<bar>2 powi k * x\<bar>"
    unfolding abs using b(1) p by (simp add: power_int_add mult.commute)
  have "2 powi k * \<bar>x\<bar> < 2 powi k * 2 powi (expo x + 1)"
    using b(2) p by simp
  also have "\<dots> = 2 powi (expo x + k + 1)"
    by (simp add: power_int_add[symmetric] algebra_simps)
  finally show "\<bar>2 powi k * x\<bar> < 2 powi (expo x + k + 1)"
    unfolding abs .
qed

lemma fl32_nonzero:
  assumes "x \<noteq> 0"
  shows "fl32 x =
     (let e = max (expo x) (- 126);
          ulp = 2 powi (e - 23);
          r = of_int (rne (x / ulp)) * ulp
      in if 2 powi 128 \<le> \<bar>r\<bar> then (if 0 < x then PInf else NInf) else Fin r)"
  using assms by (simp add: fl32_def)

lemma fl32_scale:
  assumes x: "x \<noteq> 0"
    and lo: "- 126 \<le> expo x" "- 126 \<le> expo x + k"
    and r: "fl32 x = Fin r"
    and hi: "\<bar>2 powi k * r\<bar> < 2 powi 128"
  shows "fl32 (2 powi k * x) = Fin (2 powi k * r)"
proof -
  let ?s = "(2::real) powi k"
  let ?ulp = "(2::real) powi (expo x - 23)"
  have s: "0 < ?s" by (simp add: zero_less_power_int)
  have r0: "r = of_int (rne (x / ?ulp)) * ?ulp"
    using r x lo(1) by (simp add: fl32_def Let_def max_def split: if_splits)
  have e': "max (expo (?s * x)) (- 126) = expo x + k"
    using expo_scale[OF x, of k] lo(2) by simp
  have ulp': "(2::real) powi (expo x + k - 23) = ?s * ?ulp"
    by (simp add: power_int_add[symmetric] algebra_simps)
  have q: "?s * x / (?s * ?ulp) = x / ?ulp"
    using s by simp
  have R: "of_int (rne (?s * x / (?s * ?ulp))) * (?s * ?ulp) = ?s * r"
    unfolding q r0 by simp
  have nz: "?s * x \<noteq> 0" using x s by simp
  have "fl32 (?s * x) =
          (if 2 powi 128 \<le> \<bar>?s * r\<bar> then (if 0 < ?s * x then PInf else NInf)
           else Fin (?s * r))"
    unfolding fl32_nonzero[OF nz] Let_def e' ulp' R ..
  then show ?thesis
    using hi by simp
qed

lemma fl32_examples:
  "fl32 (138 / 7) = Fin (10335963 / 524288)"
  "fl32 (46 / 7) = Fin (13781285 / 2097152)"
  "fl32 (3 * (13781285 / 2097152)) = Fin (10335964 / 524288)"
  by code_simp+

lemma rne_of_int [simp]: "rne (of_int z) = z"
  by (simp add: rne_def)

lemma rne_between: "\<lfloor>t\<rfloor> \<le> rne t" "rne t \<le> \<lceil>t\<rceil>"
proof -
  show "\<lfloor>t\<rfloor> \<le> rne t" by (simp add: rne_def Let_def)
  have "\<lfloor>t\<rfloor> + 1 \<le> \<lceil>t\<rceil>" if "t - of_int \<lfloor>t\<rfloor> \<noteq> 0"
    using that by (metis ceiling_altdef diff_eq_eq add.commute add_0 order_refl)
  moreover have "\<lfloor>t\<rfloor> \<le> \<lceil>t\<rceil>" by (simp add: floor_le_ceiling)
  ultimately show "rne t \<le> \<lceil>t\<rceil>"
    by (auto simp: rne_def Let_def)
qed

lemma rne_abs_bound:
  assumes "\<bar>t\<bar> \<le> of_int N"
  shows "\<bar>rne t\<bar> \<le> N"
proof -
  have "- of_int N \<le> t" "t \<le> of_int N" using assms by auto
  then have "- N \<le> \<lfloor>t\<rfloor>" "\<lceil>t\<rceil> \<le> N"
    by (simp_all add: le_floor_iff ceiling_le_iff)
  with rne_between[of t] show ?thesis by linarith
qed


lemma powi_nonneg_int:
  assumes "0 \<le> d"
  shows "(2::real) powi d = of_int (2 ^ nat d)"
  using assms by (simp add: power_int_def)

lemma fl32_idem:
  assumes "fl32 y = Fin r"
  shows "fl32 r = Fin r"
proof (cases "y = 0 \<or> r = 0")
  case True
  then show ?thesis using assms by (auto simp: fl32_def)
next
  case False
  then have y: "y \<noteq> 0" and rnz: "r \<noteq> 0" by auto
  define e where "e = max (expo y) (- 126)"
  define ulp :: real where "ulp = 2 powi (e - 23)"
  define m where "m = rne (y / ulp)"
  have ulp: "0 < ulp" by (simp add: ulp_def zero_less_power_int)
  have r: "r = of_int m * ulp" and fin: "\<bar>r\<bar> < 2 powi 128"
    using assms y unfolding fl32_nonzero[OF y] Let_def e_def[symmetric] ulp_def[symmetric]
      m_def[symmetric]
    by (auto split: if_splits)
  have e126: "- 126 \<le> e" by (simp add: e_def)
  have "\<bar>y\<bar> < 2 powi (expo y + 1)" using expo_bounds(2)[OF y] .
  also have "\<dots> \<le> 2 powi (e + 1)"
    by (intro power_int_increasing) (auto simp: e_def)
  finally have "\<bar>y\<bar> / ulp < 2 powi (e + 1) / ulp"
    using ulp by (simp add: divide_strict_right_mono)
  also have "2 powi (e + 1) / ulp = 2 powi 24"
    unfolding ulp_def by (simp add: power_int_diff[symmetric])
  finally have "\<bar>y / ulp\<bar> \<le> of_int (2 ^ 24)"
    using ulp by simp
  then have mb: "\<bar>m\<bar> \<le> 2 ^ 24"
    unfolding m_def by (rule rne_abs_bound)
  define er where "er = expo r"
  define e' where "e' = max er (- 126)"
  define ulp' :: real where "ulp' = 2 powi (e' - 23)"
  have ulp': "0 < ulp'" by (simp add: ulp'_def zero_less_power_int)
  have absr: "\<bar>r\<bar> = of_int \<bar>m\<bar> * ulp"
    using ulp by (simp add: r abs_mult)
  have two: "2 powi (e + 1) = of_int (2 ^ 24) * ulp"
  proof -
    have "e + 1 = 24 + (e - 23)" by simp
    then have "(2::real) powi (e + 1) = 2 powi (24 + (e - 23))" by (rule arg_cong)
    also have "\<dots> = 2 powi 24 * 2 powi (e - 23)"
      by (rule power_int_add) simp
    finally show ?thesis by (simp add: ulp_def)
  qed
  have "\<exists>z::int. r / ulp' = of_int z"
  proof (cases "\<bar>m\<bar> = 2 ^ 24")
    case True
    then have "\<bar>r\<bar> = 2 powi (e + 1)"
      using absr two by simp
    then have "2 powi (e + 1) \<le> \<bar>r\<bar>" "\<bar>r\<bar> < 2 powi (e + 1 + 1)"
      by (simp_all add: power_int_add zero_less_power_int)
    then have "er = e + 1"
      unfolding er_def by (rule expo_unique)
    then have e'e: "e' = e + 1" using e126 by (simp add: e'_def)
    have "ulp' = 2 * ulp"
      unfolding ulp'_def ulp_def e'e
      using power_int_add_1'[of "2::real" "e - 23"] by (simp add: algebra_simps)
    then have "r / ulp' = of_int m / 2"
      using ulp by (simp add: r)
    moreover have "even m" using True by (cases "0 \<le> m"; simp add: abs_if) (metis even_minus even_numeral even_power zero_less_numeral minus_minus)
    then obtain z where "m = 2 * z" by (elim evenE)
    ultimately show ?thesis by auto
  next
    case False
    with mb have "\<bar>m\<bar> < 2 ^ 24" by simp
    then have "real_of_int \<bar>m\<bar> < of_int (2 ^ 24)"
      by (simp only: of_int_less_iff)
    then have "\<bar>r\<bar> < 2 powi (e + 1)"
      unfolding absr two using ulp by (simp only: mult_less_cancel_right_pos)
    moreover have "2 powi er \<le> \<bar>r\<bar>"
      unfolding er_def using expo_bounds(1)[OF rnz] .
    ultimately have "(2::real) powi er < 2 powi (e + 1)" by simp
    then have "er < e + 1"
      by (metis not_le power_int_increasing one_le_numeral)
    then have "e' \<le> e" using e126 by (simp add: e'_def)
    then have d: "0 \<le> e - e'" by simp
    have "ulp = 2 powi (e - e') * ulp'"
      unfolding ulp_def ulp'_def by (simp add: power_int_add[symmetric])
    then have "r / ulp' = of_int m * 2 powi (e - e')"
      using ulp' by (simp add: r)
    also have "\<dots> = of_int (m * 2 ^ nat (e - e'))"
      by (simp add: powi_nonneg_int[OF d])
    finally show ?thesis by blast
  qed
  then obtain z :: int where z: "r / ulp' = of_int z" by blast
  then have "of_int (rne (r / ulp')) * ulp' = r"
    using ulp' by (simp add: field_simps)
  then show ?thesis
    unfolding fl32_nonzero[OF rnz] Let_def er_def[symmetric] e'_def[symmetric] ulp'_def[symmetric]
    using fin by simp
qed

lemma scale_ok_fl32:
  assumes "scale_ok k z"
  obtains r where "fl32 z = Fin r" "fl32 (2 powi k * z) = Fin (2 powi k * r)"
proof (cases "z = 0")
  case True
  then have "fl32 z = Fin 0" "fl32 (2 powi k * z) = Fin (2 powi k * 0)"
    by (simp_all add: fl32_def)
  then show ?thesis by (rule that)
next
  case False
  from assms obtain r where r: "fl32 z = Fin r" and hi: "\<bar>2 powi k * r\<bar> < 2 powi 128"
    by (auto simp: scale_ok_def split: fval.splits)
  from assms False have lo: "- 126 \<le> expo z" "- 126 \<le> expo z + k"
    by (auto simp: scale_ok_def)
  from fl32_scale[OF False lo r hi] r show ?thesis by (rule that[rotated])
qed

lemma scaled_input:
  assumes "fl32 y = Fin y" "scale_ok k y"
  shows "fmul32 (Fin (2 powi k)) (Fin y) = Fin (2 powi k * y)"
proof -
  from scale_ok_fl32[OF assms(2)] obtain r where
    "fl32 y = Fin r" "fl32 (2 powi k * y) = Fin (2 powi k * r)" .
  with assms(1) show ?thesis by simp
qed

lemma sum_scaled:
  assumes "sum_ok k a xs"
  shows "\<exists>s. foldl fadd32 (Fin a) (map Fin xs) = Fin s \<and>
             foldl fadd32 (Fin (2 powi k * a)) (map (\<lambda>x. Fin (2 powi k * x)) xs)
               = Fin (2 powi k * s)"
  using assms
proof (induction xs arbitrary: a)
  case Nil
  then show ?case by simp
next
  case (Cons x xs)
  from Cons.prems have ok: "scale_ok k (a + x)" by simp
  from scale_ok_fl32[OF ok] obtain r where
    r: "fl32 (a + x) = Fin r" "fl32 (2 powi k * (a + x)) = Fin (2 powi k * r)" .
  from Cons.prems r(1) have "sum_ok k r xs" by simp
  from Cons.IH[OF this] r show ?case
    by (simp add: distrib_left)
qed

lemma pool_scaled:
  assumes ok: "pool_ok k (x # xs) n" and n: "n \<noteq> 0"
  shows "\<exists>q. fdiv32 (foldl fadd32 (Fin x) (map Fin xs)) (Fin (real n)) = Fin q \<and>
             fdiv32 (foldl fadd32 (Fin (2 powi k * x)) (map (\<lambda>y. Fin (2 powi k * y)) xs))
               (Fin (real n)) = Fin (2 powi k * q) \<and>
             fmul32 (Fin (2 powi k)) (Fin q) = Fin (2 powi k * q)"
proof -
  from ok have s_ok: "sum_ok k x xs" by (simp add: pool_ok_def)
  from sum_scaled[OF s_ok] obtain s where
    s: "foldl fadd32 (Fin x) (map Fin xs) = Fin s"
       "foldl fadd32 (Fin (2 powi k * x)) (map (\<lambda>y. Fin (2 powi k * y)) xs) = Fin (2 powi k * s)"
    by blast
  from ok s(1) have d_ok: "scale_ok k (s / real n)"
    by (simp add: pool_ok_def)
  from scale_ok_fl32[OF d_ok] obtain q where
    q: "fl32 (s / real n) = Fin q" "fl32 (2 powi k * (s / real n)) = Fin (2 powi k * q)" .
  from ok s(1) q(1) have q_ok: "scale_ok k q"
    by (simp add: pool_ok_def)
  have "fl32 q = Fin q" using q(1) by (rule fl32_idem)
  then have "fmul32 (Fin (2 powi k)) (Fin q) = Fin (2 powi k * q)"
    using q_ok by (rule scaled_input)
  with s q n show ?thesis by simp
qed

lemma SequenceMask_f32_nth:
  assumes "t < length X" "j < length (X ! t)"
  shows "SequenceMask_f32 X vl ! t ! j =
           (if t < vl ! j then X ! t ! j else map (\<lambda>_. Fin 0) (X ! t ! j))"
    and "length (SequenceMask_f32 X vl ! t) = length (X ! t)"
    and "length (SequenceMask_f32 X vl) = length X"
  using assms by (simp_all add: SequenceMask_f32_def nth_enumerate_eq)

lemma SequenceMask_f32_elem:
  assumes "has_shape (T, N, C) X" "t < T" "j < N"
  shows "length (SequenceMask_f32 X vl ! t) = N"
    and "length (SequenceMask_f32 X vl ! t ! j) = C"
    and "c < C \<Longrightarrow>
         SequenceMask_f32 X vl ! t ! j ! c = (if t < vl ! j then X ! t ! j ! c else Fin 0)"
proof -
  have l: "t < length X" "j < length (X ! t)" "length (X ! t) = N" "length (X ! t ! j) = C"
    using assms has_shape_nth[OF assms(1,2)] has_shape_nth_nth[OF assms]
    by (auto simp: has_shape_def)
  show "length (SequenceMask_f32 X vl ! t) = N"
    using SequenceMask_f32_nth(2)[OF l(1,2)] l(3) by simp
  show "length (SequenceMask_f32 X vl ! t ! j) = C"
    using SequenceMask_f32_nth(1)[OF l(1,2)] l(4) by simp
  show "c < C \<Longrightarrow>
         SequenceMask_f32 X vl ! t ! j ! c = (if t < vl ! j then X ! t ! j ! c else Fin 0)"
    using SequenceMask_f32_nth(1)[OF l(1,2)] l(4) by simp
qed

lemma foldl_map2_nth:
  assumes "length A = N" "\<forall>j<N. length (A ! j) = C"
    and "\<forall>Y \<in> set Xs. length Y = N \<and> (\<forall>j<N. length (Y ! j) = C)"
  shows "length (foldl (map2 (map2 f)) A Xs) = N \<and>
         (\<forall>j<N. length (foldl (map2 (map2 f)) A Xs ! j) = C \<and>
            (\<forall>c<C. foldl (map2 (map2 f)) A Xs ! j ! c =
                    foldl f (A ! j ! c) (map (\<lambda>Y. Y ! j ! c) Xs)))"
  using assms
proof (induction Xs arbitrary: A)
  case Nil
  then show ?case by simp
next
  case (Cons Y Ys)
  let ?B = "map2 (map2 f) A Y"
  have Y: "length Y = N" "\<forall>j<N. length (Y ! j) = C"
    using Cons.prems(3) by auto
  have B: "length ?B = N" "\<forall>j<N. length (?B ! j) = C"
    using Cons.prems(1,2) Y by auto
  have Bv: "?B ! j ! c = f (A ! j ! c) (Y ! j ! c)" if "j < N" "c < C" for j c
    using that Cons.prems(1,2) Y by simp
  have "\<forall>Z \<in> set Ys. length Z = N \<and> (\<forall>j<N. length (Z ! j) = C)"
    using Cons.prems(3) by simp
  from Cons.IH[OF B this] Bv show ?case by simp
qed


lemma MeanPoolingLayer_f32_value:
  assumes "has_shape (T, N, C) X" "length vl = N"
  shows "\<exists>P. MeanPoolingLayer_f32 X vl = Inr P \<and> length P = N \<and>
           (\<forall>j<N. length (P ! j) = C \<and>
              (\<forall>c<C. P ! j ! c =
                 fdiv32 (foldl fadd32 (if 0 < vl ! j then X ! 0 ! j ! c else Fin 0)
                           (map (\<lambda>t. if t < vl ! j then X ! t ! j ! c else Fin 0) [1..<T]))
                        (Fin (real (vl ! j)))))"
proof -
  let ?M = "SequenceMask_f32 X vl"
  have T: "0 < T" "length X = T" using assms(1) by (auto simp: has_shape_def)
  then have lenM: "length ?M = T" by (simp add: SequenceMask_f32_def)
  then obtain M0 Ms where M: "?M = M0 # Ms"
    using T(1) by (cases ?M) auto
  have Ms: "Ms = map (\<lambda>t. ?M ! t) [1..<T]"
  proof (rule nth_equalityI)
    show "length Ms = length (map (\<lambda>t. ?M ! t) [1..<T])"
      using lenM M by simp
  next
    fix i assume "i < length Ms"
    then show "Ms ! i = map (\<lambda>t. ?M ! t) [1..<T] ! i"
      using lenM M by simp
  qed
  have M0: "M0 = ?M ! 0" using M by simp
  have N0: "0 < N" using assms(1) by (auto simp: has_shape_def)
  have rowN: "length (?M ! t) = N" if "t < T" for t
    using SequenceMask_f32_elem(1)[OF assms(1) that N0] .
  have rowC: "length (?M ! t ! j) = C" if "t < T" "j < N" for t j
    using SequenceMask_f32_elem(2)[OF assms(1) that] .
  have A: "length M0 = N" "\<forall>j<N. length (M0 ! j) = C"
    unfolding M0 using rowN[OF T(1)] rowC[OF T(1)] by auto
  have R: "\<forall>Y \<in> set Ms. length Y = N \<and> (\<forall>j<N. length (Y ! j) = C)"
    unfolding Ms using rowN rowC by auto
  let ?S = "nd_sum_axis0_f32 ?M"
  have S: "?S = foldl (map2 (map2 fadd32)) M0 Ms" by (simp add: M)
  from foldl_map2_nth[OF A R, of fadd32] have
    SN: "length ?S = N" and SC: "\<And>j. j < N \<Longrightarrow> length (?S ! j) = C"
    and SV: "\<And>j c. j < N \<Longrightarrow> c < C \<Longrightarrow>
          ?S ! j ! c = foldl fadd32 (M0 ! j ! c) (map (\<lambda>Y. Y ! j ! c) Ms)"
    unfolding S by auto
  have SV': "?S ! j ! c =
        foldl fadd32 (if 0 < vl ! j then X ! 0 ! j ! c else Fin 0)
          (map (\<lambda>t. if t < vl ! j then X ! t ! j ! c else Fin 0) [1..<T])"
    if j: "j < N" and c: "c < C" for j c
  proof -
    have "M0 ! j ! c = (if 0 < vl ! j then X ! 0 ! j ! c else Fin 0)"
      unfolding M0 using SequenceMask_f32_elem(3)[OF assms(1) T(1) j c] .
    moreover have "map (\<lambda>Y. Y ! j ! c) Ms =
        map (\<lambda>t. if t < vl ! j then X ! t ! j ! c else Fin 0) [1..<T]"
      unfolding Ms using SequenceMask_f32_elem(3)[OF assms(1) _ j c] by simp
    ultimately show ?thesis using SV[OF j c] by simp
  qed
  let ?P = "broadcast_div_f32 ?S (expand_dims vl)"
  have "MeanPoolingLayer_f32 X vl = Inr ?P"
    using assms has_shape_batch_axis[OF assms(1)] by (simp add: MeanPoolingLayer_f32_def)
  moreover have "length ?P = N"
    using SN assms(2) by (simp add: broadcast_div_f32_def expand_dims_def)
  moreover have "length (?P ! j) = C" if "j < N" for j
    using that SN SC assms(2) by (simp add: broadcast_div_f32_def expand_dims_def)
  moreover have "?P ! j ! c =
      fdiv32 (foldl fadd32 (if 0 < vl ! j then X ! 0 ! j ! c else Fin 0)
                (map (\<lambda>t. if t < vl ! j then X ! t ! j ! c else Fin 0) [1..<T]))
             (Fin (real (vl ! j)))"
    if "j < N" "c < C" for j c
    using that SN SC SV'[OF that] assms(2) by (simp add: broadcast_div_f32_def expand_dims_def)
  ultimately show ?thesis by blast
qed

lemma nd_f32_shape:
  assumes "has_shape (T, N, C) F"
  shows "has_shape (T, N, C) (nd_f32 F)"
    and "has_shape (T, N, C) (nd_scale_f32 s (nd_f32 F))"
  using assms by (auto simp: has_shape_def nd_f32_def nd_scale_f32_def)

lemma nd_f32_nth:
  assumes "has_shape (T, N, C) F" "t < T" "j < N" "c < C"
  shows "nd_f32 F ! t ! j ! c = Fin (F ! t ! j ! c)"
    and "nd_scale_f32 s (nd_f32 F) ! t ! j ! c = fmul32 (Fin s) (Fin (F ! t ! j ! c))"
proof -
  have "t < length F" "j < length (F ! t)" "c < length (F ! t ! j)"
    using assms has_shape_nth[OF assms(1,2)] has_shape_nth_nth[OF assms(1,2,3)]
    by (auto simp: has_shape_def)
  then show "nd_f32 F ! t ! j ! c = Fin (F ! t ! j ! c)"
    and "nd_scale_f32 s (nd_f32 F) ! t ! j ! c = fmul32 (Fin s) (Fin (F ! t ! j ! c))"
    by (simp_all add: nd_f32_def nd_scale_f32_def)
qed

text \<open>
  Claim C6 as amended. In the float32 arithmetic of the layer, masked mean pooling commutes
  with scaling by a power of two as long as no rounding overflows or underflows: for every
  integer \<open>k\<close>, every array \<open>F\<close> of binary32 features and valid lengths that are all at least
  1, if every rounding in the pooling of \<open>F\<close> stays in the normal range with and without
  the factor \<open>2 powi k\<close> (\<open>pool_ok\<close>), then pooling \<open>2 powi k * F\<close> gives \<open>2 powi k\<close> times the
  pooled output of \<open>F\<close>, entry by entry.
\<close>

theorem C6_pooling_power_of_two:
  assumes sh: "has_shape (T, N, C) F"
    and len: "length valid_length = N"
    and pos: "\<forall>j<N. 1 \<le> valid_length ! j"
    and ok: "\<forall>j<N. \<forall>c<C.
               pool_ok k (map (\<lambda>t. if t < valid_length ! j then F ! t ! j ! c else 0) [0..<T])
                 (valid_length ! j)"
  shows "\<exists>pooled.
           MeanPoolingLayer_f32 (nd_f32 F) valid_length = Inr pooled \<and>
           MeanPoolingLayer_f32 (nd_scale_f32 (2 powi k) (nd_f32 F)) valid_length
             = Inr (map (map (fmul32 (Fin (2 powi k)))) pooled)"
proof -
  let ?s = "(2::real) powi k"
  let ?X = "nd_f32 F" and ?X' = "nd_scale_f32 ?s (nd_f32 F)"
  have T: "0 < T" using sh by (auto simp: has_shape_def)
  from MeanPoolingLayer_f32_value[OF nd_f32_shape(1)[OF sh] len] obtain P where
    P: "MeanPoolingLayer_f32 ?X valid_length = Inr P" "length P = N"
       "\<And>j. j < N \<Longrightarrow> length (P ! j) = C"
       "\<And>j c. j < N \<Longrightarrow> c < C \<Longrightarrow> P ! j ! c =
          fdiv32 (foldl fadd32 (if 0 < valid_length ! j then ?X ! 0 ! j ! c else Fin 0)
                    (map (\<lambda>t. if t < valid_length ! j then ?X ! t ! j ! c else Fin 0) [1..<T]))
                 (Fin (real (valid_length ! j)))"
    by blast
  from MeanPoolingLayer_f32_value[OF nd_f32_shape(2)[OF sh] len] obtain P' where
    P': "MeanPoolingLayer_f32 ?X' valid_length = Inr P'" "length P' = N"
       "\<And>j. j < N \<Longrightarrow> length (P' ! j) = C"
       "\<And>j c. j < N \<Longrightarrow> c < C \<Longrightarrow> P' ! j ! c =
          fdiv32 (foldl fadd32 (if 0 < valid_length ! j then ?X' ! 0 ! j ! c else Fin 0)
                    (map (\<lambda>t. if t < valid_length ! j then ?X' ! t ! j ! c else Fin 0) [1..<T]))
                 (Fin (real (valid_length ! j)))"
    by blast
  have entry: "P' ! j ! c = fmul32 (Fin ?s) (P ! j ! c)" if j: "j < N" and c: "c < C" for j c
  proof -
    let ?n = "valid_length ! j"
    define col where "col t = (if t < ?n then F ! t ! j ! c else 0)" for t
    have n: "?n \<noteq> 0" using pos j by fastforce
    have upt: "[0..<T] = 0 # [1..<T]" using T by (simp add: upt_conv_Cons)
    have pk: "pool_ok k (col 0 # map col [1..<T]) ?n"
      using ok j c unfolding col_def upt by simp
    have m: "(if t < ?n then ?X ! t ! j ! c else Fin 0) = Fin (col t)" if "t < T" for t
      using nd_f32_nth(1)[OF sh that j c] by (simp add: col_def)
    have inp: "fl32 (col t) = Fin (col t) \<and> scale_ok k (col t)" if "t < T" for t
    proof -
      have "col t \<in> set (col 0 # map col [1..<T])"
        using that by (cases "t = 0") auto
      with pk show ?thesis by (auto simp: pool_ok_def list_all_iff)
    qed
    have m': "(if t < ?n then ?X' ! t ! j ! c else Fin 0) = Fin (?s * col t)" if "t < T" for t
    proof (cases "t < ?n")
      case True
      then have "fmul32 (Fin ?s) (Fin (F ! t ! j ! c)) = Fin (?s * F ! t ! j ! c)"
        using inp[OF that] scaled_input[of "F ! t ! j ! c" k] by (simp add: col_def)
      then show ?thesis
        using True nd_f32_nth(2)[OF sh that j c] by (simp add: col_def)
    next
      case False
      then show ?thesis by (simp add: col_def)
    qed
    have l: "map (\<lambda>t. if t < ?n then ?X ! t ! j ! c else Fin 0) [1..<T]
               = map Fin (map col [1..<T])"
      using m by simp
    have l': "map (\<lambda>t. if t < ?n then ?X' ! t ! j ! c else Fin 0) [1..<T]
               = map (\<lambda>y. Fin (?s * y)) (map col [1..<T])"
      using m' by simp
    have p: "P ! j ! c = fdiv32 (foldl fadd32 (Fin (col 0)) (map Fin (map col [1..<T])))
                           (Fin (real ?n))"
      using P(4)[OF j c] m[OF T] l by (simp only:)
    have p': "P' ! j ! c =
                fdiv32 (foldl fadd32 (Fin (?s * col 0))
                          (map (\<lambda>y. Fin (?s * y)) (map col [1..<T]))) (Fin (real ?n))"
      using P'(4)[OF j c] m'[OF T] l' by (simp only:)
    from pool_scaled[OF pk n] p p' show ?thesis by auto
  qed
  have "P' ! j = map (fmul32 (Fin ?s)) (P ! j)" if j: "j < N" for j
    using P(3)[OF j] P'(3)[OF j] entry[OF j] by (intro nth_equalityI) auto
  then have "P' = map (map (fmul32 (Fin ?s))) P"
    using P(2) P'(2) by (intro nth_equalityI) auto
  with P(1) P'(1) show ?thesis by simp
qed

text \<open>
  Claim C6 says that for every constant \<open>c\<close> pooling \<open>c * F\<close> equals \<open>c\<close> times the pooled
  output of \<open>F\<close>. In float32 the two sides are rounded differently: for \<open>c = 3\<close>, one example
  of seven positions with the features 1, 2, 4, 6, 9, 11, 13 and the valid length 7, the
  sums 138 and 46 are exact, pooling \<open>3 * F\<close> gives the rounded \<open>138 / 7\<close>, which is
  \<open>10335963 / 524288\<close>, and 3 times the pooled output of \<open>F\<close> is the rounded product of 3 and
  the rounded \<open>46 / 7\<close>, which is \<open>10335964 / 524288\<close>.
\<close>

theorem C6_pooling_linear_counterexample:
  "MeanPoolingLayer_f32
     (nd_scale_f32 3 (nd_f32 [[[1]], [[2]], [[4]], [[6]], [[9]], [[11]], [[13]]])) [7]
     = Inr [[Fin (10335963 / 524288)]] \<and>
   MeanPoolingLayer_f32 (nd_f32 [[[1]], [[2]], [[4]], [[6]], [[9]], [[11]], [[13]]]) [7]
     = Inr [[Fin (13781285 / 2097152)]] \<and>
   map (map (fmul32 (Fin 3))) [[Fin (13781285 / 2097152)]] = [[Fin (10335964 / 524288)]] \<and>
   (10335963 / 524288 :: real) \<noteq> 10335964 / 524288"
proof -
  have "MeanPoolingLayer_f32
     (nd_scale_f32 3 (nd_f32 [[[1]], [[2]], [[4]], [[6]], [[9]], [[11]], [[13]]])) [7]
     = Inr [[Fin (10335963 / 524288)]]"
    by code_simp
  moreover have
    "MeanPoolingLayer_f32 (nd_f32 [[[1]], [[2]], [[4]], [[6]], [[9]], [[11]], [[13]]]) [7]
     = Inr [[Fin (13781285 / 2097152)]]"
    by code_simp
  moreover have
    "map (map (fmul32 (Fin 3))) [[Fin (13781285 / 2097152)]] = [[Fin (10335964 / 524288)]]"
    by code_simp
  moreover have "(10335963 / 524288 :: real) \<noteq> 10335964 / 524288"
    by simp
  ultimately show ?thesis by (intro conjI)
qed

theorem C6_pooling_power_of_two_witness:
  "MeanPoolingLayer_f32 (nd_f32 [[[1]], [[2]], [[4]], [[100]]]) [3]
     = Inr [[Fin (9786709 / 4194304)]] \<and>
   MeanPoolingLayer_f32 (nd_scale_f32 (2 powi 1) (nd_f32 [[[1]], [[2]], [[4]], [[100]]])) [3]
     = Inr [[Fin (9786709 / 2097152)]]"
proof -
  let ?F = "[[[1]], [[2]], [[4]], [[100 :: real]]]"
  have sh: "has_shape (4, 1, 1) ?F" by (simp add: has_shape_def)
  have len: "length [3 :: nat] = 1" by simp
  have pos: "\<forall>j<1. 1 \<le> [3 :: nat] ! j" by simp
  have "pool_ok 1 (map (\<lambda>t. if t < [3] ! 0 then ?F ! t ! 0 ! 0 else 0) [0..<4]) ([3] ! 0)"
    by code_simp
  then have ok: "\<forall>j<1. \<forall>c<1.
      pool_ok 1 (map (\<lambda>t. if t < [3] ! j then ?F ! t ! j ! c else 0) [0..<4]) ([3] ! j)"
    by simp
  from C6_pooling_power_of_two[OF sh len pos ok] obtain pooled where
    p: "MeanPoolingLayer_f32 (nd_f32 ?F) [3] = Inr pooled"
    and s: "MeanPoolingLayer_f32 (nd_scale_f32 (2 powi 1) (nd_f32 ?F)) [3]
             = Inr (map (map (fmul32 (Fin (2 powi 1)))) pooled)"
    by blast
  have v: "MeanPoolingLayer_f32 (nd_f32 ?F) [3] = Inr [[Fin (9786709 / 4194304)]]"
    by code_simp
  with p have "pooled = [[Fin (9786709 / 4194304)]]" by simp
  moreover have "map (map (fmul32 (Fin (2 powi 1)))) [[Fin (9786709 / 4194304)]]
      = [[Fin (9786709 / 2097152)]]"
    by code_simp
  ultimately have "MeanPoolingLayer_f32 (nd_scale_f32 (2 powi 1) (nd_f32 ?F)) [3]
      = Inr [[Fin (9786709 / 2097152)]]"
    using s by simp
  with v show ?thesis by (intro conjI)
qed

end
